theory Spec2Isabelle
  imports Complex_Main "HOL-Library.Word" "HOL-Library.Sublist"
begin

unbundle bit_operations_syntax

section \<open>The Goertzel tone detector (svxlink/rx/ToneDetector.cpp)\<close>

text \<open>
  The detector object. The class declaration (ToneDetector.h) gives the member types; the
  members are the ones the constructor and the member functions of ToneDetector.cpp use.
  \<open>SAMPLE\<close> is the 16-bit signed \<open>short\<close> of the buffer \<open>processSamples\<close> walks over.
  \<open>FLOATING\<close> is modelled by \<open>real\<close>: the arithmetic is exact, the rounding of a machine
  float and its special values are not part of the model. \<open>block_pos\<close>, \<open>N\<close> and
  \<open>is_activated\<close> are C \<open>int\<close>s; they stay between 0 and \<open>max N 1\<close>, resp. between 0 and 3,
  so no wrap-around is written out.
\<close>

record ToneDetector =
  tone :: int
  block_pos :: int
  is_activated :: int
  result :: real
  tone_fq :: int
  N :: int
  sine :: real
  cosine :: real
  coeff :: real
  Q1 :: real
  Q2 :: real

text \<open>The two signals of the detector, in the order they are emitted.\<close>

datatype signal = valueChanged real | activated bool

definition SAMPLING_RATE :: real where
  "SAMPLING_RATE = 8000"

definition THRESHOLD :: real where
  "THRESHOLD = 5000000"

definition resetGoertzel :: "ToneDetector \<Rightarrow> ToneDetector" where
  "resetGoertzel d = d\<lparr>Q2 := 0, Q1 := 0\<rparr>"

text \<open>
  The constructor \<open>ToneDetector::ToneDetector(int tone_hz, int base_N)\<close>. For
  \<open>base_N = 0\<close> the C++ divides 0.0 by 0.0; HOL's \<open>0 / 0 = 0\<close> is not what the code
  computes there, so the constructor is only used with \<open>base_N \<noteq> 0\<close>.
\<close>

definition ToneDetector_ctor :: "int \<Rightarrow> int \<Rightarrow> ToneDetector" where
  "ToneDetector_ctor tone_hz base_N =
     (let floatN = (of_int base_N :: real);
          k = (floatN * of_int tone_hz) / SAMPLING_RATE;
          omega = (2 * pi * k) / floatN
      in resetGoertzel
           \<lparr>tone = tone_hz, block_pos = 0, is_activated = 0, result = 0, tone_fq = tone_hz,
            N = base_N, sine = sin omega, cosine = cos omega, coeff = 2 * cos omega,
            Q1 = 0, Q2 = 0\<rparr>)"

text \<open>
  \<open>unsigned char usample = ((int)sample + 0x8000) >> 8\<close>: the sample is widened to
  \<open>int\<close> (no overflow: the sum is between 0 and 65535), shifted right by 8 and stored in
  an 8-bit unsigned variable.
\<close>

definition usample :: "16 word \<Rightarrow> 8 word" where
  "usample sample = word_of_int (drop_bit 8 (sint sample + 0x8000))"

definition processSample :: "ToneDetector \<Rightarrow> 16 word \<Rightarrow> ToneDetector" where
  "processSample d sample =
     (let Q0 = coeff d * Q1 d - Q2 d + of_nat (unat (usample sample))
      in d\<lparr>Q2 := Q1 d, Q1 := Q0\<rparr>)"

definition getMagnitudeSquared :: "ToneDetector \<Rightarrow> real" where
  "getMagnitudeSquared d = Q1 d * Q1 d + Q2 d * Q2 d - Q1 d * Q2 d * coeff d"

text \<open>
  The body of \<open>if (++block_pos >= N)\<close> in \<open>processSamples\<close>: the block's result is
  stored and signalled, the activation counter is updated, the recurrence is reset.
\<close>

definition blockEnd :: "ToneDetector \<Rightarrow> ToneDetector \<times> signal list" where
  "blockEnd d =
     (let d1 = d\<lparr>result := getMagnitudeSquared d\<rparr>;
          s1 = [valueChanged (result d1)];
          (d2, s2) =
            (if result d1 \<ge> THRESHOLD then
               (d1\<lparr>is_activated := 3\<rparr>,
                if is_activated d1 = 0 then [activated True] else [])
             else if is_activated d1 \<noteq> 0 \<and> result d1 < THRESHOLD then
               (let d' = d1\<lparr>is_activated := is_activated d1 - 1\<rparr>
                in (d', if is_activated d' = 0 then [activated False] else []))
             else (d1, []))
      in ((resetGoertzel d2)\<lparr>block_pos := 0\<rparr>, s1 @ s2))"

text \<open>One iteration of the \<open>for\<close> loop of \<open>processSamples\<close>.\<close>

definition processSamples_iter :: "ToneDetector \<Rightarrow> 16 word \<Rightarrow> ToneDetector \<times> signal list" where
  "processSamples_iter d sample =
     (let d1 = processSample d sample;
          d2 = d1\<lparr>block_pos := block_pos d1 + 1\<rparr>
      in if block_pos d2 \<ge> N d2 then blockEnd d2 else (d2, []))"

fun processSamples_loop :: "ToneDetector \<Rightarrow> 16 word list \<Rightarrow> ToneDetector \<times> signal list" where
  "processSamples_loop d [] = (d, [])"
| "processSamples_loop d (x # xs) =
     (let (d1, s1) = processSamples_iter d x;
          (d2, s2) = processSamples_loop d1 xs
      in (d2, s1 @ s2))"

text \<open>
  \<open>int processSamples(short *buf, int len)\<close>: the buffer is the list of its \<open>len\<close>
  samples; the function returns \<open>len\<close>, the detector after the loop and the signals
  emitted on the way.
\<close>

definition processSamples :: "ToneDetector \<Rightarrow> 16 word list \<Rightarrow> int \<times> ToneDetector \<times> signal list" where
  "processSamples d buf = (int (length buf), processSamples_loop d buf)"

subsection \<open>The detector's contract, in the words of the specification\<close>

text \<open>
  The recurrence of one block as the specification writes it: starting from \<open>Q1 = Q2 = 0\<close>,
  every sample code \<open>u\<close> gives \<open>Q0 = coeff * Q1 - Q2 + u\<close>, \<open>Q2 \<leftarrow> Q1\<close>, \<open>Q1 \<leftarrow> Q0\<close>; the
  block's result is \<open>Q1\<^sup>2 + Q2\<^sup>2 - Q1 * Q2 * coeff\<close> on the pair reached at the end of the
  block. The pair is \<open>(Q1, Q2)\<close>.
\<close>

definition goertzel_step :: "real \<Rightarrow> real \<times> real \<Rightarrow> 16 word \<Rightarrow> real \<times> real" where
  "goertzel_step c q x = (c * fst q - snd q + of_int (uint (usample x)), fst q)"

definition block_result :: "real \<Rightarrow> 16 word list \<Rightarrow> real" where
  "block_result c blk =
     (let q = foldl (goertzel_step c) (0, 0) blk
      in fst q * fst q + snd q * snd q - fst q * snd q * c)"

text \<open>The recurrence state of a detector as a pair.\<close>

definition Qs :: "ToneDetector \<Rightarrow> real \<times> real" where
  "Qs d = (Q1 d, Q2 d)"

text \<open>
  The signals of a sequence of blocks with results \<open>rs\<close>, for an activation counter \<open>a\<close>:
  every block signals its value; a block at or above the threshold signals an activation
  when the counter is 0 and sets the counter to 3; a block below the threshold decrements
  a non-zero counter and signals the deactivation when it reaches 0.
\<close>

fun block_signals :: "int \<Rightarrow> real list \<Rightarrow> signal list" where
  "block_signals a [] = []"
| "block_signals a (r # rs) =
     valueChanged r #
       (if r \<ge> THRESHOLD then (if a = 0 then [activated True] else []) @ block_signals 3 rs
        else if a \<noteq> 0 then (if a - 1 = 0 then [activated False] else []) @ block_signals (a - 1) rs
        else block_signals a rs)"

text \<open>
  The activation rule in the words of the specification, at a block boundary with the
  counter \<open>a\<close> and the block's result \<open>r\<close>: if the result is at or above the threshold,
  \<open>activated True\<close> is emitted iff the counter was 0, and the counter is set to 3;
  otherwise a counter above 0 is decremented, and \<open>activated False\<close> is emitted iff it
  reaches 0. The counter after the boundary and the activation signals emitted.
\<close>

definition activation_rule :: "int \<Rightarrow> real \<Rightarrow> int \<times> signal list" where
  "activation_rule a r =
     (if r \<ge> THRESHOLD then (3, if a = 0 then [activated True] else [])
      else if a > 0 then (a - 1, if a - 1 = 0 then [activated False] else [])
      else (a, []))"

text \<open>
  The rule along a sequence of blocks with the results \<open>rs\<close>, every block signalling its
  value first: the counter after the last block and all the signals.
\<close>

fun activation_run :: "int \<Rightarrow> real list \<Rightarrow> int \<times> signal list" where
  "activation_run a [] = (a, [])"
| "activation_run a (r # rs) =
     (let (a1, s1) = activation_rule a r;
          (a2, s2) = activation_run a1 rs
      in (a2, valueChanged r # s1 @ s2))"

text \<open>The values, resp. the activation flags, of a list of signals, in order.\<close>

fun changes :: "signal list \<Rightarrow> real list" where
  "changes [] = []"
| "changes (valueChanged r # s) = r # changes s"
| "changes (activated b # s) = changes s"

fun activations :: "signal list \<Rightarrow> bool list" where
  "activations [] = []"
| "activations (valueChanged r # s) = activations s"
| "activations (activated b # s) = b # activations s"

text \<open>Flags that alternate, starting with \<open>b\<close>.\<close>

fun alternating :: "bool \<Rightarrow> bool list \<Rightarrow> bool" where
  "alternating b [] = True"
| "alternating b (x # xs) = (x = b \<and> alternating (\<not> b) xs)"

text \<open>
  The signals \<open>pre\<close> end with the values of three blocks, all below the threshold, and
  an activation was signalled before them.
\<close>

definition three_low_before :: "signal list \<Rightarrow> bool" where
  "three_low_before pre =
     (\<exists>pre' r1 r2 r3. pre = pre' @ [valueChanged r1, valueChanged r2, valueChanged r3]
        \<and> r1 < THRESHOLD \<and> r2 < THRESHOLD \<and> r3 < THRESHOLD \<and> True \<in> set (activations pre'))"

text \<open>Every deactivation in \<open>sigs\<close> comes right after three such blocks.\<close>

definition deactivations_justified :: "signal list \<Rightarrow> bool" where
  "deactivations_justified sigs =
     (\<forall>pre post. sigs = pre @ activated False # post \<longrightarrow> three_low_before pre)"

text \<open>
  What the activation counter \<open>a\<close> says about the signals emitted so far: a counter of
  \<open>3 - n\<close> means that the last \<open>n\<close> signals are values below the threshold and that an
  activation came before them.
\<close>

definition counter_inv :: "int \<Rightarrow> signal list \<Rightarrow> bool" where
  "counter_inv a hist =
     (a = 0 \<or> (1 \<le> a \<and> a \<le> 3 \<and>
        (\<exists>h rs. hist = h @ map valueChanged rs \<and> int (length rs) = 3 - a
           \<and> (\<forall>r \<in> set rs. r < THRESHOLD) \<and> True \<in> set (activations h))))"

section \<open>The hierarchical state machine (AsyncStateMachine.h)\<close>

subsection \<open>State classes and state objects\<close>

text \<open>
  A state class \<open>T\<close> is declared as \<open>struct T : StateBase<ParentT, T>\<close>; the top state
  derives from \<open>StateBase<StateTopBase<ContextT, TopStateT>, TopStateT>\<close>. A class is the
  value \<open>StateBase ParentT T\<close>, with \<open>T\<close> its own name, and \<open>StateTopBase\<close> is the abstract
  root, which is not a state. \<open>typeid\<close> equality is equality of these values.
\<close>

datatype 't state_class = StateTopBase | StateBase "'t state_class" 't

text \<open>
  A state object on the heap: its address and its dynamic class. A pointer is an
  \<open>option\<close>, \<open>nullptr\<close> being \<open>None\<close>. Two pointers are equal when the addresses are:
  \<open>new\<close> may return the address of an object that was deleted before (\<open>new_addr\<close>
  below), so a pointer kept across a \<open>delete\<close> can be equal to a pointer to a later
  object.
\<close>

record 't state_obj =
  obj_id :: nat
  obj_class :: "'t state_class"

text \<open>The class itself and its base classes, from the class up to the root.\<close>

fun bases :: "'t state_class \<Rightarrow> 't state_class list" where
  "bases StateTopBase = [StateTopBase]"
| "bases (StateBase ParentT T) = StateBase ParentT T # bases ParentT"

text \<open>
  \<open>dynamic_cast<T*>(p) == nullptr\<close>: the pointer is null, or the object's class is
  neither \<open>T\<close> nor derived from it.
\<close>

definition dynamic_cast_null :: "'t state_class \<Rightarrow> 't state_obj option \<Rightarrow> bool" where
  "dynamic_cast_null T p =
     (case p of None \<Rightarrow> True | Some obj \<Rightarrow> T \<notin> set (bases (obj_class obj)))"

subsection \<open>The timer\<close>

text \<open>
  Modelled from the spec: \<open>Async::Timer\<close> (AsyncTimer.h) is not among the sources. The
  specification requires of the reactor a \<open>Timer(initial_ms, periodic)\<close> with
  \<open>set_enable(bool)\<close> and an \<open>expired\<close> signal. The timer is its timeout and whether it
  is running; only a running timer emits \<open>expired\<close> (\<open>Timer_fire\<close> below). The machine's
  timer is constructed as \<open>Timer m_timer = -1\<close>; a timer with a negative timeout is taken
  to be created stopped, and nothing that follows depends on it.
\<close>

record Timer =
  timeout_ms :: int
  is_enabled :: bool

definition Timer_ctor :: "int \<Rightarrow> Timer" where
  "Timer_ctor ms = \<lparr>timeout_ms = ms, is_enabled = (0 \<le> ms)\<rparr>"

definition Timer_setTimeout :: "int \<Rightarrow> Timer \<Rightarrow> Timer" where
  "Timer_setTimeout ms t = t\<lparr>timeout_ms := ms\<rparr>"

definition Timer_setEnable :: "bool \<Rightarrow> Timer \<Rightarrow> Timer" where
  "Timer_setEnable b t = t\<lparr>is_enabled := b\<rparr>"

subsection \<open>The machine\<close>

text \<open>
  What a run of the machine does that can be observed: the calls of the user's \<open>init\<close>,
  \<open>exit\<close> and \<open>entry\<close> functions and of \<open>timeoutEvent\<close>, the assignment
  \<open>m_state = state\<close> and the \<open>delete\<close> of a state object. \<open>exit\<close> and \<open>entry\<close> are called
  per class level, on the one object.
\<close>

datatype 't call =
  Init "'t state_obj" | Exit "'t state_class" | Entry "'t state_class"
  | Install "'t state_obj" | Delete "'t state_obj" | TimeoutEvent "'t state_obj"

text \<open>
  \<open>StateMachine<ContextT, StateTopT>\<close>: the members \<open>m_state\<close>, \<open>m_ctx\<close> (the context
  itself stands for the pointer to it) and \<open>m_timer\<close>, and, for the model, the number
  of objects allocated so far and the calls so far.
\<close>

record ('t, 'c) StateMachine =
  m_state :: "'t state_obj option"
  m_ctx :: 'c
  m_timer :: Timer
  next_obj :: nat
  trace :: "'t call list"

text \<open>
  The user's code. What a state function can do to the machine is to arm or clear the
  timeout, to change the context and, in \<open>init\<close> and in event functions, to call
  \<open>setState<T>()\<close>. \<open>entry\<close> and \<open>exit\<close> must not start a transition (the comments on
  them in \<open>StateBase\<close>), so their bodies are actions only. A body is given for the context
  it starts in. \<open>timeoutEvent\<close> is \<open>None\<close> for a class that does not define it: then the
  override in \<open>StateBase<ParentT, T>\<close>, which asserts, is the final overrider.

  With the user's code comes the allocator it runs on: \<open>new_addr k\<close> is the address that
  the \<open>k\<close>-th \<open>new\<close> of the run returns. Any sequence of addresses is allowed here, so
  that what is proved for every \<open>new_addr\<close> holds whatever the allocator does, reuse of
  freed addresses included.
\<close>

datatype 'c action = SetTimeout int | ClearTimeout | Update "'c \<Rightarrow> 'c"

datatype ('t, 'c) stmt = Do "'c action" | SetState "'t state_class"

record ('t, 'c) states =
  init :: "'t state_class \<Rightarrow> 'c \<Rightarrow> ('t, 'c) stmt list"
  entry :: "'t state_class \<Rightarrow> 'c \<Rightarrow> 'c action list"
  exit :: "'t state_class \<Rightarrow> 'c \<Rightarrow> 'c action list"
  timeoutEvent :: "'t state_class \<Rightarrow> ('c \<Rightarrow> ('t, 'c) stmt list) option"
  new_addr :: "nat \<Rightarrow> nat"

definition StateMachine_ctor :: "'c \<Rightarrow> ('t, 'c) StateMachine" where
  "StateMachine_ctor ctx =
     \<lparr>m_state = None, m_ctx = ctx, m_timer = Timer_ctor (- 1), next_obj = 0, trace = []\<rparr>"

definition setTimeout :: "int \<Rightarrow> ('t, 'c) StateMachine \<Rightarrow> ('t, 'c) StateMachine" where
  "setTimeout ms m = m\<lparr>m_timer := Timer_setEnable True (Timer_setTimeout ms (m_timer m))\<rparr>"

definition clearTimeout :: "('t, 'c) StateMachine \<Rightarrow> ('t, 'c) StateMachine" where
  "clearTimeout m = m\<lparr>m_timer := Timer_setEnable False (m_timer m)\<rparr>"

text \<open>Recording a call.\<close>

definition called :: "'t call \<Rightarrow> ('t, 'c) StateMachine \<Rightarrow> ('t, 'c) StateMachine" where
  "called e m = m\<lparr>trace := trace m @ [e]\<rparr>"

fun run_action :: "'c action \<Rightarrow> ('t, 'c) StateMachine \<Rightarrow> ('t, 'c) StateMachine" where
  "run_action (SetTimeout ms) m = setTimeout ms m"
| "run_action ClearTimeout m = clearTimeout m"
| "run_action (Update f) m = m\<lparr>m_ctx := f (m_ctx m)\<rparr>"

fun run_actions :: "'c action list \<Rightarrow> ('t, 'c) StateMachine \<Rightarrow> ('t, 'c) StateMachine" where
  "run_actions [] m = m"
| "run_actions (a # as) m = run_actions as (run_action a m)"

text \<open>
  \<open>StateBase<ParentT, T>::exitHandler(to)\<close>, with \<open>StateTopBase::exitHandler\<close>, which is
  empty, at the root: recursion over the class the handler is called at.
\<close>

fun exitHandler ::
  "('t, 'c) states \<Rightarrow> 't state_class \<Rightarrow> 't state_obj option \<Rightarrow> ('t, 'c) StateMachine
   \<Rightarrow> ('t, 'c) StateMachine" where
  "exitHandler p StateTopBase to m = m"
| "exitHandler p (StateBase ParentT T) to m =
     (if dynamic_cast_null (StateBase ParentT T) to then
        (let m1 = clearTimeout m;
             m2 = run_actions (exit p (StateBase ParentT T) (m_ctx m1))
                    (called (Exit (StateBase ParentT T)) m1)
         in exitHandler p ParentT to m2)
      else m)"

text \<open>\<open>StateBase<ParentT, T>::entryHandler(from)\<close>, likewise.\<close>

fun entryHandler ::
  "('t, 'c) states \<Rightarrow> 't state_class \<Rightarrow> 't state_obj option \<Rightarrow> ('t, 'c) StateMachine
   \<Rightarrow> ('t, 'c) StateMachine" where
  "entryHandler p StateTopBase from m = m"
| "entryHandler p (StateBase ParentT T) from m =
     (if dynamic_cast_null (StateBase ParentT T) from then
        (let m1 = entryHandler p ParentT from m
         in run_actions (entry p (StateBase ParentT T) (m_ctx m1))
              (called (Entry (StateBase ParentT T)) m1))
      else m)"

text \<open>\<open>new NewStateT\<close> and \<open>delete state\<close> (a no-op on a null pointer).\<close>

definition new_state ::
  "('t, 'c) states \<Rightarrow> 't state_class \<Rightarrow> ('t, 'c) StateMachine
   \<Rightarrow> 't state_obj \<times> ('t, 'c) StateMachine" where
  "new_state p T m =
     (\<lparr>obj_id = new_addr p (next_obj m), obj_class = T\<rparr>, m\<lparr>next_obj := Suc (next_obj m)\<rparr>)"

definition delete_state ::
  "'t state_obj option \<Rightarrow> ('t, 'c) StateMachine \<Rightarrow> ('t, 'c) StateMachine" where
  "delete_state ptr m = (case ptr of None \<Rightarrow> m | Some obj \<Rightarrow> called (Delete obj) m)"

text \<open>
  \<open>StateMachine::setState\<close>, called with its default argument \<open>new NewStateT\<close>, and the
  execution of a body of user code, which may call it. \<open>init\<close> functions that switch
  to each other make the C++ recurse for ever; the first argument bounds the depth of
  nested \<open>setState\<close> calls, and \<open>None\<close> is a run that needs more. The call of
  \<open>initHandler\<close> is the \<open>exec\<close> of the candidate's \<open>init\<close> body.
  \<open>state->setMachine(this)\<close> ties the candidate to the machine, which is the only one
  here, and has no other effect.

  \<open>old_state\<close> and \<open>m_state\<close> are raw pointers, and \<open>old_state != m_state\<close> compares
  their addresses. When the addresses are equal, what \<open>old_state\<close> points to from then on
  is the object at that address, the current state object: the one it pointed to before
  \<open>init\<close>, unless \<open>init\<close> replaced the state and \<open>new\<close> gave the address of the deleted
  object to the replacement.
\<close>

fun setState ::
    "nat \<Rightarrow> ('t, 'c) states \<Rightarrow> 't state_class \<Rightarrow> ('t, 'c) StateMachine
     \<Rightarrow> ('t, 'c) StateMachine option"
  and exec ::
    "nat \<Rightarrow> ('t, 'c) states \<Rightarrow> ('t, 'c) stmt list \<Rightarrow> ('t, 'c) StateMachine
     \<Rightarrow> ('t, 'c) StateMachine option" where
  "setState 0 p NewStateT m = None"
| "setState (Suc n) p NewStateT m =
     (let (state, m0) = new_state p NewStateT m;
          old_state = m_state m0
      in if (case old_state of None \<Rightarrow> False | Some old \<Rightarrow> NewStateT = obj_class old) then
           Some (delete_state (Some state) m0)
         else
           (case exec n p (init p (obj_class state) (m_ctx m0)) (called (Init state) m0) of
              None \<Rightarrow> None
            | Some m1 \<Rightarrow>
                if map_option obj_id old_state \<noteq> map_option obj_id (m_state m1) then
                  Some (delete_state (Some state) m1)
                else
                  (let old_state = m_state m1;
                       m2 = (case old_state of None \<Rightarrow> m1
                             | Some old \<Rightarrow> exitHandler p (obj_class old) (Some state) m1);
                       m3 = called (Install state) (m2\<lparr>m_state := Some state\<rparr>);
                       m4 = entryHandler p (obj_class state) old_state m3
                   in Some (delete_state old_state m4))))"
| "exec n p [] m = Some m"
| "exec n p (Do a # ss) m = exec n p ss (run_action a m)"
| "exec n p (SetState T # ss) m =
     (case setState n p T m of None \<Rightarrow> None | Some m' \<Rightarrow> exec n p ss m')"

text \<open>\<open>StateBase<ParentT, T>::initHandler\<close>, as \<open>setState\<close> runs it on the candidate.\<close>

definition initHandler ::
  "nat \<Rightarrow> ('t, 'c) states \<Rightarrow> 't state_obj \<Rightarrow> ('t, 'c) StateMachine
   \<Rightarrow> ('t, 'c) StateMachine option" where
  "initHandler n p state m = exec n p (init p (obj_class state) (m_ctx m)) (called (Init state) m)"

text \<open>\<open>StateMachine::start\<close>; \<open>StateTopT\<close> is the machine's second template argument.\<close>

definition start ::
  "nat \<Rightarrow> ('t, 'c) states \<Rightarrow> 't state_class \<Rightarrow> ('t, 'c) StateMachine
   \<Rightarrow> ('t, 'c) StateMachine option" where
  "start n p StateTopT m = setState n p StateTopT m"

text \<open>
  \<open>isActive<T>()\<close> and \<open>state()\<close> dereference \<open>m_state\<close> without a check: on a null
  pointer the behaviour is undefined, which is the fault \<open>NullDereference\<close>. A failed
  \<open>assert\<close> is the fault \<open>AssertionFailed\<close>.
\<close>

datatype fault = NullDereference | AssertionFailed

definition isActive :: "'t state_class \<Rightarrow> ('t, 'c) StateMachine \<Rightarrow> fault + bool" where
  "isActive T m = (case m_state m of None \<Rightarrow> Inl NullDereference | Some obj \<Rightarrow> Inr (T = obj_class obj))"

definition state :: "('t, 'c) StateMachine \<Rightarrow> fault + 't state_obj" where
  "state m = (case m_state m of None \<Rightarrow> Inl NullDereference | Some obj \<Rightarrow> Inr obj)"



subsection \<open>Notions of the specification\<close>

text \<open>
  \<open>P\<close> is the nearest common ancestor of \<open>A\<close> and \<open>B\<close> (either of which it may be): it
  is on both chains, and every class on both chains is \<open>P\<close> or a base of \<open>P\<close>.
\<close>

definition nearest_common_ancestor ::
  "'t state_class \<Rightarrow> 't state_class \<Rightarrow> 't state_class \<Rightarrow> bool" where
  "nearest_common_ancestor P A B =
     (P \<in> set (bases A) \<and> P \<in> set (bases B) \<and>
      (\<forall>Q \<in> set (bases A). Q \<in> set (bases B) \<longrightarrow> Q \<in> set (bases P)))"

text \<open>The classes on the chain of \<open>C\<close> strictly below \<open>P\<close>, bottom-up.\<close>

definition below :: "'t state_class \<Rightarrow> 't state_class \<Rightarrow> 't state_class list" where
  "below P C = takeWhile (\<lambda>T. T \<noteq> P) (bases C)"

text \<open>The nearest common ancestor, computed along the chain of the first class.\<close>

fun nca :: "'t state_class \<Rightarrow> 't state_class \<Rightarrow> 't state_class" where
  "nca StateTopBase B = StateTopBase"
| "nca (StateBase ParentT T) B =
     (if StateBase ParentT T \<in> set (bases B) then StateBase ParentT T else nca ParentT B)"

text \<open>
  The states that \<open>exitHandler(to)\<close>, called at a class, exits: the classes of the chain
  from that class up to the first one that \<open>to\<close> is an instance of, which is not exited.
\<close>

fun exited :: "'t state_class \<Rightarrow> 't state_obj option \<Rightarrow> 't state_class list" where
  "exited StateTopBase to = []"
| "exited (StateBase ParentT T) to =
     (if dynamic_cast_null (StateBase ParentT T) to then StateBase ParentT T # exited ParentT to
      else [])"


subsection \<open>An example machine\<close>

text \<open>
  The hierarchy of the scenarios S5 and S6 of the specification: \<open>Top\<close> with the
  substates \<open>A\<close> and \<open>B\<close>, which have the substates \<open>A1\<close> and \<open>B1\<close>. \<open>init\<close> of \<open>Top\<close> selects
  \<open>A\<close>, \<open>init\<close> of \<open>A\<close> selects \<open>A1\<close>; \<open>A1\<close> arms a timeout on entry and switches to \<open>B1\<close>
  when it expires. The allocator never returns an address twice. \<open>started\<close> is the
  machine after \<open>start()\<close>.
\<close>

definition StateTop :: "string state_class" where "StateTop = StateBase StateTopBase ''Top''"

definition StateA :: "string state_class" where "StateA = StateBase StateTop ''A''"

definition StateA1 :: "string state_class" where "StateA1 = StateBase StateA ''A1''"

definition StateB :: "string state_class" where "StateB = StateBase StateTop ''B''"

definition StateB1 :: "string state_class" where "StateB1 = StateBase StateB ''B1''"

definition demo :: "(string, unit) states" where
  "demo = \<lparr>init = (\<lambda>T c. if T = StateTop then [SetState StateA]
                         else if T = StateA then [SetState StateA1] else []),
            entry = (\<lambda>T c. if T = StateA1 then [SetTimeout 100] else []),
            exit = (\<lambda>T c. []),
            timeoutEvent = (\<lambda>T. if T = StateA1 then Some (\<lambda>c. [SetState StateB1]) else None),
            new_addr = (\<lambda>k. k)\<rparr>"

definition started :: "(string, unit) StateMachine" where
  "started =
     \<lparr>m_state = Some \<lparr>obj_id = 2, obj_class = StateA1\<rparr>, m_ctx = (),
      m_timer = \<lparr>timeout_ms = 100, is_enabled = True\<rparr>, next_obj = 3,
      trace = [Init \<lparr>obj_id = 0, obj_class = StateTop\<rparr>, Init \<lparr>obj_id = 1, obj_class = StateA\<rparr>,
               Init \<lparr>obj_id = 2, obj_class = StateA1\<rparr>, Install \<lparr>obj_id = 2, obj_class = StateA1\<rparr>,
               Entry StateTop, Entry StateA, Entry StateA1,
               Delete \<lparr>obj_id = 1, obj_class = StateA\<rparr>, Delete \<lparr>obj_id = 0, obj_class = StateTop\<rparr>]\<rparr>"

text \<open>
  The same machine with two more classes, a substate \<open>A2\<close> of \<open>A\<close> and a substate \<open>R\<close> of
  \<open>Top\<close> whose \<open>init\<close> switches to \<open>B1\<close> and then to \<open>A2\<close>, on an allocator that gives a
  freed address out again: the sixth \<open>new\<close> returns the address 2. \<open>start()\<close> leaves this
  machine in \<open>started\<close> as well, with \<open>A1\<close> at the address 2; in \<open>setState<R>()\<close> the
  fourth and the fifth \<open>new\<close> allocate \<open>R\<close> at 3 and \<open>B1\<close> at 4, the switch to \<open>B1\<close> deletes
  the object at 2, and the sixth \<open>new\<close> allocates \<open>A2\<close> there.
\<close>

definition StateA2 :: "string state_class" where "StateA2 = StateBase StateA ''A2''"

definition StateR :: "string state_class" where "StateR = StateBase StateTop ''R''"

definition reusing :: "(string, unit) states" where
  "reusing = \<lparr>init = (\<lambda>T c. if T = StateTop then [SetState StateA]
                            else if T = StateA then [SetState StateA1]
                            else if T = StateR then [SetState StateB1, SetState StateA2] else []),
               entry = (\<lambda>T c. if T = StateA1 then [SetTimeout 100] else []),
               exit = (\<lambda>T c. []),
               timeoutEvent = (\<lambda>T. if T = StateA1 then Some (\<lambda>c. [SetState StateB1]) else None),
               new_addr = (\<lambda>k. if k = 5 then 2 else k)\<rparr>"


section \<open>The audio splitter (AsyncAudioSplitter.h)\<close>

text \<open>
  Modelled from the spec: only the declaration of \<open>class AudioSplitter\<close> is among the
  sources; its member functions and the class \<open>Branch\<close> are not. The members declared in
  AsyncAudioSplitter.h keep their names (\<open>branches\<close>, \<open>buf\<close>, \<open>do_flush\<close>,
  \<open>input_stopped\<close>, \<open>flushed_branches\<close>); \<open>buf\<close> holds the \<open>buf_len\<close> samples in the
  buffer. What the operations do follows sections 3, 4.1 and 4.2 of the specification,
  sentence by sentence.

  A branch (section 3): a reference to the sink, here the sink's number, the flags
  \<open>enabled\<close>, \<open>flushed\<close> and \<open>pending_resume\<close>, and the write cursor into the buffer.
\<close>

record Branch =
  sink :: nat
  enabled :: bool
  flushed :: bool
  pending_resume :: bool
  cursor :: nat

record AudioSplitter =
  branches :: "Branch list"
  buf :: "real list"
  do_flush :: bool
  input_stopped :: bool
  flushed_branches :: nat

text \<open>The signals a sink sends to its source (section 4.1).\<close>

datatype upstream_signal = resume_output | all_samples_flushed

text \<open>
  The downstream sinks are not part of the splitter. Their answers to
  \<open>write_samples(frame)\<close>, the number of leading samples accepted, are given with every
  event, as a function of the sink and the frame offered.
\<close>

type_synonym sinks = "nat \<Rightarrow> real list \<Rightarrow> nat"

definition buf_len :: "AudioSplitter \<Rightarrow> nat" where
  "buf_len s = length (buf s)"

text \<open>
  \<open>min_cursor = min(branch.cursor for branch in enabled_branches)\<close>: "the splitter has
  absorbed \<open>min_cursor\<close> samples from upstream". Without an enabled branch all \<open>len\<close>
  samples of the buffer are absorbed.
\<close>

definition min_cursor :: "nat \<Rightarrow> Branch list \<Rightarrow> nat" where
  "min_cursor len bs = fold (\<lambda>b m. if enabled b then min (cursor b) m else m) bs len"

text \<open>
  "For each enabled branch whose cursor < \<open>buf_len\<close>, invoke
  \<open>sink.write_samples(buf[cursor:])\<close> and advance the cursor by the return value."
\<close>

definition write_branch :: "sinks \<Rightarrow> real list \<Rightarrow> Branch \<Rightarrow> Branch" where
  "write_branch snk bf b =
     (if enabled b \<and> cursor b < length bf
      then b\<lparr>cursor := cursor b + snk (sink b) (drop (cursor b) bf)\<rparr>
      else b)"

text \<open>A branch short-wrote: it is enabled and its cursor is still behind \<open>buf_len\<close>.\<close>

definition short_wrote :: "AudioSplitter \<Rightarrow> bool" where
  "short_wrote s = (\<exists>b \<in> set (branches s). enabled b \<and> cursor b < buf_len s)"

text \<open>"Compact: \<open>buf_len = 0\<close> for all branches, clear \<open>input_stopped\<close>."\<close>

definition compact :: "AudioSplitter \<Rightarrow> AudioSplitter" where
  "compact s = s\<lparr>branches := map (\<lambda>b. b\<lparr>cursor := 0\<rparr>) (branches s), buf := [],
                 input_stopped := False\<rparr>"

text \<open>
  The end of a pass: "If any branch short-wrote, set \<open>input_stopped = true\<close>." "When all
  cursors reach \<open>buf_len\<close>, compact [...] and (if previously stopped) call
  \<open>resume_output\<close> on upstream exactly once."
\<close>

definition settle :: "AudioSplitter \<Rightarrow> AudioSplitter \<times> upstream_signal list" where
  "settle s =
     (if short_wrote s then (s\<lparr>input_stopped := True\<rparr>, [])
      else (compact s, if input_stopped s then [resume_output] else []))"

definition writeFromBuffer :: "sinks \<Rightarrow> AudioSplitter \<Rightarrow> AudioSplitter \<times> upstream_signal list" where
  "writeFromBuffer snk s = settle (s\<lparr>branches := map (write_branch snk (buf s)) (branches s)\<rparr>)"

text \<open>
  "\<open>write_samples(samples, len)\<close>: append to buffer; call \<open>write_from_buffer\<close>; return
  the number of samples the splitter was able to absorb from the caller", which is
  \<open>min_cursor\<close> of the cursors the pass has reached.
\<close>

definition writeSamples ::
  "sinks \<Rightarrow> real list \<Rightarrow> AudioSplitter \<Rightarrow> nat \<times> AudioSplitter \<times> upstream_signal list" where
  "writeSamples snk samples s =
     (let s1 = s\<lparr>buf := buf s @ samples\<rparr>;
          absorbed = min_cursor (buf_len s1) (map (write_branch snk (buf s1)) (branches s1))
      in (absorbed, writeFromBuffer snk s1))"

text \<open>
  "\<open>resume_output\<close> from one branch while others remain behind: re-enter
  \<open>write_from_buffer\<close> for that branch only; do not wake upstream until all cursors catch
  up."
\<close>

definition branchResumeOutput ::
  "sinks \<Rightarrow> nat \<Rightarrow> AudioSplitter \<Rightarrow> AudioSplitter \<times> upstream_signal list" where
  "branchResumeOutput snk k s =
     settle (s\<lparr>branches := map (\<lambda>b. if sink b = k then write_branch snk (buf s) b else b) (branches s)\<rparr>)"

text \<open>
  What happens to a splitter whose branches stay as they are: upstream writes a frame,
  or the sink of a branch signals that it is ready again.
\<close>

datatype splitter_event = Write "real list" sinks | BranchResume nat sinks

fun splitter_step :: "splitter_event \<Rightarrow> AudioSplitter \<Rightarrow> AudioSplitter \<times> upstream_signal list" where
  "splitter_step (Write samples snk) s = snd (writeSamples snk samples s)"
| "splitter_step (BranchResume k snk) s = branchResumeOutput snk k s"

text \<open>The splitter and the signals sent upstream, after each event of a sequence.\<close>

fun splitter_run :: "splitter_event list \<Rightarrow> AudioSplitter \<Rightarrow> (AudioSplitter \<times> upstream_signal list) list" where
  "splitter_run [] s = []"
| "splitter_run (e # es) s = (let r = splitter_step e s in r # splitter_run es (fst r))"

text \<open>The splitter after the writes to the branches that an event causes, before the
  buffer is settled.\<close>

fun branch_writes :: "splitter_event \<Rightarrow> AudioSplitter \<Rightarrow> AudioSplitter" where
  "branch_writes (Write samples snk) s =
     s\<lparr>buf := buf s @ samples, branches := map (write_branch snk (buf s @ samples)) (branches s)\<rparr>"
| "branch_writes (BranchResume k snk) s =
     s\<lparr>branches := map (\<lambda>b. if sink b = k then write_branch snk (buf s) b else b) (branches s)\<rparr>"

text \<open>The sinks keep the contract of section 4.1: they accept no more than is offered.\<close>

fun well_behaved :: "splitter_event \<Rightarrow> bool" where
  "well_behaved (Write samples snk) = (\<forall>k frame. snk k frame \<le> length frame)"
| "well_behaved (BranchResume k snk) = (\<forall>k frame. snk k frame \<le> length frame)"

text \<open>
  The number of changes from stopped to not stopped in a sequence of values of
  \<open>input_stopped\<close>, and the number of \<open>resume_output\<close> signals of a run.
\<close>

fun drains :: "bool list \<Rightarrow> nat" where
  "drains (a # b # xs) = (if a \<and> \<not> b then 1 else 0) + drains (b # xs)"
| "drains xs = 0"

definition resumes :: "(AudioSplitter \<times> upstream_signal list) list \<Rightarrow> nat" where
  "resumes r = length (filter (\<lambda>u. u = resume_output) (concat (map snd r)))"

text \<open>
  Scenario S1 of the specification: two sinks, the first accepts everything, the second
  half of what it is offered; ten samples are written.
\<close>

definition S1_splitter :: AudioSplitter where
  "S1_splitter =
     \<lparr>branches = [\<lparr>sink = 1, enabled = True, flushed = False, pending_resume = False, cursor = 0\<rparr>,
                  \<lparr>sink = 2, enabled = True, flushed = False, pending_resume = False, cursor = 0\<rparr>],
      buf = [], do_flush = False, input_stopped = False, flushed_branches = 0\<rparr>"

definition S1_sinks :: sinks where
  "S1_sinks k frame = (if k = 1 then length frame else length frame div 2)"

definition accept_all :: sinks where
  "accept_all k frame = length frame"

definition S1_samples :: "real list" where
  "S1_samples = [1, 2, 3, 4, 5, 6, 7, 8, 9, 10]"

definition S1_stopped :: AudioSplitter where
  "S1_stopped =
     \<lparr>branches = [\<lparr>sink = 1, enabled = True, flushed = False, pending_resume = False, cursor = 10\<rparr>,
                  \<lparr>sink = 2, enabled = True, flushed = False, pending_resume = False, cursor = 5\<rparr>],
      buf = S1_samples, do_flush = False, input_stopped = True, flushed_branches = 0\<rparr>"

section \<open>Properties of the tone detector\<close>

subsection \<open>The sample code\<close>

lemma usample_range_int:
  "0 \<le> drop_bit 8 (sint (x :: 16 word) + 0x8000) \<and> drop_bit 8 (sint x + 0x8000) < 256"
proof -
  have lo: "- (2 ^ 15) \<le> sint x" using sint_ge [of x] by simp
  have hi: "sint x < 2 ^ 15" using sint_lt [of x] by simp
  show ?thesis using lo hi
    by (simp add: drop_bit_eq_div div_less_iff_less_mult pos_imp_zdiv_nonneg_iff)
qed

lemma uint_usample: "uint (usample x) = (sint x + 0x8000) div 256"
proof -
  have "uint (usample x) = drop_bit 8 (sint x + 0x8000) mod 2 ^ 8"
    by (simp add: usample_def uint_word_of_int)
  also have "\<dots> = drop_bit 8 (sint x + 0x8000)"
    using usample_range_int [of x] by simp
  finally show ?thesis by (simp add: drop_bit_eq_div)
qed

text \<open>
  C8. For every 16-bit signed sample \<open>x\<close> the code \<open>u = ((int)x + 0x8000) >> 8\<close> lies
  in [0, 255] (so storing it in an \<open>unsigned char\<close> loses nothing), and one sample
  updates the recurrence by \<open>Q0 = coeff * Q1 - Q2 + u\<close>, \<open>Q2 \<leftarrow> Q1\<close>, \<open>Q1 \<leftarrow> Q0\<close>,
  leaving every other member as it was.
\<close>

theorem processSample_code_and_update:
  "uint (usample x) = drop_bit 8 (sint x + 0x8000)
   \<and> 0 \<le> uint (usample x) \<and> uint (usample x) \<le> 255
   \<and> processSample d x =
       d\<lparr>Q2 := Q1 d, Q1 := coeff d * Q1 d - Q2 d + of_int (uint (usample x))\<rparr>"
proof -
  have a: "uint (usample x) = drop_bit 8 (sint x + 0x8000)"
    by (simp add: uint_usample drop_bit_eq_div)
  have b: "0 \<le> uint (usample x) \<and> uint (usample x) \<le> 255"
    using usample_range_int [of x] a by simp
  have c: "processSample d x =
       d\<lparr>Q2 := Q1 d, Q1 := coeff d * Q1 d - Q2 d + of_int (uint (usample x))\<rparr>"
    by (simp add: processSample_def)
  from a b c show ?thesis by blast
qed

subsection \<open>Blocks\<close>

lemma processSample_fields [simp]:
  "coeff (processSample d x) = coeff d" "N (processSample d x) = N d"
  "block_pos (processSample d x) = block_pos d" "is_activated (processSample d x) = is_activated d"
  "Q1 (processSample d x) = fst (goertzel_step (coeff d) (Q1 d, Q2 d) x)"
  "Q2 (processSample d x) = snd (goertzel_step (coeff d) (Q1 d, Q2 d) x)"
  by (simp_all add: processSample_def goertzel_step_def)

lemma blockEnd_fields:
  "coeff (fst (blockEnd d)) = coeff d" "N (fst (blockEnd d)) = N d"
  "block_pos (fst (blockEnd d)) = 0" "Q1 (fst (blockEnd d)) = 0" "Q2 (fst (blockEnd d)) = 0"
  by (simp_all add: blockEnd_def resetGoertzel_def Let_def split: prod.splits if_splits)

lemma blockEnd_is_activated:
  "is_activated (fst (blockEnd d)) =
     (if getMagnitudeSquared d \<ge> THRESHOLD then 3
      else if is_activated d \<noteq> 0 then is_activated d - 1 else is_activated d)"
  by (simp add: blockEnd_def resetGoertzel_def Let_def split: prod.splits)

lemma blockEnd_signals:
  "snd (blockEnd d) =
     valueChanged (getMagnitudeSquared d) #
       (if getMagnitudeSquared d \<ge> THRESHOLD then (if is_activated d = 0 then [activated True] else [])
        else if is_activated d \<noteq> 0 then (if is_activated d - 1 = 0 then [activated False] else [])
        else [])"
  by (simp add: blockEnd_def resetGoertzel_def Let_def split: prod.splits)

lemma loop_append:
  "processSamples_loop d (xs @ ys) =
     (let (d1, s1) = processSamples_loop d xs; (d2, s2) = processSamples_loop d1 ys in (d2, s1 @ s2))"
  by (induction xs arbitrary: d) (simp_all add: Let_def split: prod.splits)

lemma loop_within_block:
  "block_pos d + int (length xs) < N d \<Longrightarrow>
   snd (processSamples_loop d xs) = [] \<and>
   (let d' = fst (processSamples_loop d xs) in
     coeff d' = coeff d \<and> N d' = N d \<and> is_activated d' = is_activated d \<and>
     block_pos d' = block_pos d + int (length xs) \<and>
     Qs d' = foldl (goertzel_step (coeff d)) (Qs d) xs)"
proof (induction xs arbitrary: d)
  case Nil
  then show ?case by simp
next
  case (Cons x xs)
  let ?d1 = "(processSample d x)\<lparr>block_pos := block_pos d + 1\<rparr>"
  have it: "processSamples_iter d x = (?d1, [])"
    using Cons.prems by (simp add: processSamples_iter_def Let_def)
  have "block_pos ?d1 + int (length xs) < N ?d1" using Cons.prems by simp
  from Cons.IH [OF this] show ?case
    by (simp add: it Let_def Qs_def split: prod.splits)
qed

lemma iter_boundary:
  "block_pos d + 1 \<ge> N d \<Longrightarrow>
   processSamples_iter d x = blockEnd ((processSample d x)\<lparr>block_pos := block_pos d + 1\<rparr>)"
  by (simp add: processSamples_iter_def Let_def)

lemma iter_no_boundary:
  "\<not> block_pos d + 1 \<ge> N d \<Longrightarrow>
   processSamples_iter d x = ((processSample d x)\<lparr>block_pos := block_pos d + 1\<rparr>, [])"
  by (simp add: processSamples_iter_def Let_def)

lemma getMagnitudeSquared_Qs:
  "getMagnitudeSquared d = fst (Qs d) * fst (Qs d) + snd (Qs d) * snd (Qs d) - fst (Qs d) * snd (Qs d) * coeff d"
  by (simp add: getMagnitudeSquared_def Qs_def)

lemma loop_one_block:
  assumes len: "int (length blk) = N d" and pos: "block_pos d = 0" and n: "1 \<le> N d"
    and q: "Qs d = (0, 0)"
  shows "snd (processSamples_loop d blk) =
           block_signals (is_activated d) [block_result (coeff d) blk]
         \<and> (let d' = fst (processSamples_loop d blk) in
              coeff d' = coeff d \<and> N d' = N d \<and> block_pos d' = 0 \<and> Qs d' = (0, 0) \<and>
              is_activated d' =
                (if block_result (coeff d) blk \<ge> THRESHOLD then 3
                 else if is_activated d \<noteq> 0 then is_activated d - 1 else is_activated d))"
proof -
  from len n have "blk \<noteq> []" by auto
  then obtain ys y where blk: "blk = ys @ [y]" by (cases blk rule: rev_cases) auto
  let ?d1 = "fst (processSamples_loop d ys)"
  have within: "block_pos d + int (length ys) < N d" using len pos blk by simp
  note w = loop_within_block [OF within, unfolded Let_def]
  have s1: "snd (processSamples_loop d ys) = []" using w by simp
  have pos1: "block_pos ?d1 + 1 \<ge> N ?d1" using w len pos blk by simp
  let ?d2 = "(processSample ?d1 y)\<lparr>block_pos := block_pos ?d1 + 1\<rparr>"
  have it: "processSamples_iter ?d1 y = blockEnd ?d2" by (rule iter_boundary [OF pos1])
  have loop: "processSamples_loop d blk = (fst (blockEnd ?d2), snd (blockEnd ?d2))"
    by (simp add: blk loop_append Let_def case_prod_beta s1 it)
  have Qs2: "Qs ?d2 = foldl (goertzel_step (coeff d)) (0, 0) blk"
    using w q by (simp add: Qs_def blk)
  have c2: "coeff ?d2 = coeff d" using w by simp
  have mag: "getMagnitudeSquared ?d2 = block_result (coeff d) blk"
    by (simp add: getMagnitudeSquared_Qs [of ?d2] Qs2 c2 block_result_def Let_def)
  have a2: "is_activated ?d2 = is_activated d" using w by simp
  have n2: "N ?d2 = N d" using w by simp
  have sig: "snd (blockEnd ?d2) = block_signals (is_activated d) [block_result (coeff d) blk]"
    by (simp add: blockEnd_signals mag a2)
  have act: "is_activated (fst (blockEnd ?d2)) =
       (if block_result (coeff d) blk \<ge> THRESHOLD then 3
        else if is_activated d \<noteq> 0 then is_activated d - 1 else is_activated d)"
    by (simp add: blockEnd_is_activated mag a2)
  show ?thesis
    unfolding loop Let_def fst_conv snd_conv
    using sig act c2 n2 by (simp add: blockEnd_fields Qs_def)
qed

lemma block_signals_step:
  "block_signals a (r # rs) =
     block_signals a [r] @
     block_signals (if r \<ge> THRESHOLD then 3 else if a \<noteq> 0 then a - 1 else a) rs"
  by simp

lemma loop_blocks:
  assumes "\<forall>b \<in> set bs. int (length b) = N d" and "block_pos d = 0" and "1 \<le> N d"
    and "Qs d = (0, 0)"
  shows "snd (processSamples_loop d (concat bs)) =
           block_signals (is_activated d) (map (block_result (coeff d)) bs)
         \<and> (let d' = fst (processSamples_loop d (concat bs)) in
              coeff d' = coeff d \<and> N d' = N d \<and> block_pos d' = 0 \<and> Qs d' = (0, 0))"
  using assms
proof (induction bs arbitrary: d)
  case Nil
  then show ?case by simp
next
  case (Cons b bs)
  define d1 where "d1 = fst (processSamples_loop d b)"
  define r where "r = block_result (coeff d) b"
  have len: "int (length b) = N d" using Cons.prems(1) by simp
  note one = loop_one_block [OF len Cons.prems(2) Cons.prems(3) Cons.prems(4), unfolded Let_def,
      folded d1_def r_def]
  have s1: "snd (processSamples_loop d b) = block_signals (is_activated d) [r]"
    and c1: "coeff d1 = coeff d" and n1': "N d1 = N d" and p1: "block_pos d1 = 0"
    and q1: "Qs d1 = (0, 0)"
    and act1: "is_activated d1 =
       (if r \<ge> THRESHOLD then 3 else if is_activated d \<noteq> 0 then is_activated d - 1 else is_activated d)"
    using one by blast+
  have all1: "\<forall>b \<in> set bs. int (length b) = N d1" using Cons.prems(1) by (simp add: n1')
  have n1: "1 \<le> N d1" using Cons.prems(3) by (simp add: n1')
  note ih = Cons.IH [OF all1 p1 n1 q1, unfolded Let_def c1 n1']
  have sig: "snd (processSamples_loop d (concat (b # bs))) =
        snd (processSamples_loop d b) @ snd (processSamples_loop d1 (concat bs))"
    by (simp add: loop_append Let_def case_prod_beta d1_def)
  have st: "fst (processSamples_loop d (concat (b # bs))) = fst (processSamples_loop d1 (concat bs))"
    by (simp add: loop_append Let_def case_prod_beta d1_def)
  have "snd (processSamples_loop d (concat (b # bs))) =
        block_signals (is_activated d) [r] @
        block_signals (is_activated d1) (map (block_result (coeff d)) bs)"
    using ih by (simp only: sig s1)
  also have "\<dots> = block_signals (is_activated d) (r # map (block_result (coeff d)) bs)"
    using block_signals_step [of "is_activated d" r "map (block_result (coeff d)) bs"]
    by (simp only: act1)
  finally have S: "snd (processSamples_loop d (concat (b # bs))) =
       block_signals (is_activated d) (map (block_result (coeff d)) (b # bs))"
    by (simp only: list.map r_def)
  from ih have R: "coeff (fst (processSamples_loop d1 (concat bs))) = coeff d \<and>
      N (fst (processSamples_loop d1 (concat bs))) = N d \<and>
      block_pos (fst (processSamples_loop d1 (concat bs))) = 0 \<and>
      Qs (fst (processSamples_loop d1 (concat bs))) = (0, 0)" by blast
  show ?case unfolding Let_def st using S R by blast
qed

lemma changes_append [simp]: "changes (s @ t) = changes s @ changes t"
  by (induction s rule: changes.induct) simp_all

lemma activations_append [simp]: "activations (s @ t) = activations s @ activations t"
  by (induction s rule: activations.induct) simp_all

lemma changes_block_signals: "changes (block_signals a rs) = rs"
  by (induction rs arbitrary: a) simp_all

lemma activations_map_valueChanged [simp]: "activations (map valueChanged rs) = []"
  by (induction rs) simp_all

lemma ctor_0_fields:
  "N (ToneDetector_ctor 0 n) = n" "block_pos (ToneDetector_ctor 0 n) = 0"
  "Q1 (ToneDetector_ctor 0 n) = 0" "Q2 (ToneDetector_ctor 0 n) = 0"
  "is_activated (ToneDetector_ctor 0 n) = 0" "coeff (ToneDetector_ctor 0 n) = 2"
  by (simp_all add: ToneDetector_ctor_def resetGoertzel_def Let_def)

lemma ctor_2000_2_fields:
  "N (ToneDetector_ctor 2000 2) = 2" "block_pos (ToneDetector_ctor 2000 2) = 0"
  "Q1 (ToneDetector_ctor 2000 2) = 0" "Q2 (ToneDetector_ctor 2000 2) = 0"
  "is_activated (ToneDetector_ctor 2000 2) = 0" "coeff (ToneDetector_ctor 2000 2) = 0"
  by (simp_all add: ToneDetector_ctor_def resetGoertzel_def Let_def SAMPLING_RATE_def)

lemma us: "usample 0 = 128" "usample 0x7FFF = 255" "usample 0x8000 = 0"
  by (simp_all add: usample_def)



subsection \<open>Activation and release\<close>

lemma justified_Nil: "deactivations_justified []"
  by (simp add: deactivations_justified_def)

lemma justified_snoc:
  assumes "deactivations_justified xs" and "y = activated False \<Longrightarrow> three_low_before xs"
  shows "deactivations_justified (xs @ [y])"
  unfolding deactivations_justified_def
proof (intro allI impI)
  fix pre post
  assume eq: "xs @ [y] = pre @ activated False # post"
  show "three_low_before pre"
  proof (cases post rule: rev_cases)
    case Nil
    with eq have "xs = pre" "y = activated False" by simp_all
    with assms(2) show ?thesis by simp
  next
    case (snoc post' y')
    with eq have "xs @ [y] = (pre @ activated False # post') @ [y']" by simp
    then have "xs = pre @ activated False # post'" by (simp only: append1_eq_conv)
    with assms(1) show ?thesis by (simp add: deactivations_justified_def)
  qed
qed

lemma iter_is_activated:
  "is_activated (fst (processSamples_iter d x)) =
     (if block_pos d + 1 \<ge> N d then
        (let r = getMagnitudeSquared ((processSample d x)\<lparr>block_pos := block_pos d + 1\<rparr>) in
         if r \<ge> THRESHOLD then 3 else if is_activated d \<noteq> 0 then is_activated d - 1 else is_activated d)
      else is_activated d)"
  by (simp add: iter_boundary iter_no_boundary blockEnd_is_activated Let_def)

lemma iter_signals:
  "snd (processSamples_iter d x) =
     (if block_pos d + 1 \<ge> N d then
        (let r = getMagnitudeSquared ((processSample d x)\<lparr>block_pos := block_pos d + 1\<rparr>) in
         valueChanged r #
         (if r \<ge> THRESHOLD then (if is_activated d = 0 then [activated True] else [])
          else if is_activated d \<noteq> 0 then (if is_activated d - 1 = 0 then [activated False] else [])
          else []))
      else [])"
  by (simp add: iter_boundary iter_no_boundary blockEnd_signals Let_def)

lemma alternating_loop:
  "alternating (is_activated d = 0) (activations (snd (processSamples_loop d xs)))"
proof (induction xs arbitrary: d)
  case Nil
  show ?case by simp
next
  case (Cons x xs)
  let ?d1 = "fst (processSamples_iter d x)"
  have sig: "snd (processSamples_loop d (x # xs)) =
      snd (processSamples_iter d x) @ snd (processSamples_loop ?d1 xs)"
    by (simp add: Let_def case_prod_beta)
  from Cons.IH [of ?d1] show ?case
    unfolding sig activations_append iter_is_activated iter_signals Let_def
    by (auto split: if_splits)
qed

lemma counter_invI:
  "1 \<le> a \<Longrightarrow> a \<le> 3 \<Longrightarrow> int (length rs) = 3 - a \<Longrightarrow> \<forall>r \<in> set rs. r < THRESHOLD \<Longrightarrow>
   True \<in> set (activations h) \<Longrightarrow> counter_inv a (h @ map valueChanged rs)"
  unfolding counter_inv_def by blast

lemma counter_inv_high:
  assumes "counter_inv a hist"
  shows "counter_inv 3 (hist @ valueChanged r # (if a = 0 then [activated True] else []))"
proof (cases "a = 0")
  case True
  have "counter_inv 3 ((hist @ [valueChanged r, activated True]) @ map valueChanged [])"
    by (rule counter_invI) simp_all
  then show ?thesis using True by simp
next
  case False
  with assms obtain h rs where h: "hist = h @ map valueChanged rs" "True \<in> set (activations h)"
    by (auto simp: counter_inv_def)
  have "counter_inv 3 ((hist @ [valueChanged r]) @ map valueChanged [])"
    by (rule counter_invI) (simp_all add: h)
  then show ?thesis using False by simp
qed

lemma counter_inv_low:
  assumes "counter_inv a hist" and "a \<noteq> 0" and "r < THRESHOLD"
  shows "counter_inv (a - 1) (hist @ [valueChanged r])"
    and "a - 1 = 0 \<Longrightarrow> three_low_before (hist @ [valueChanged r])"
proof -
  from assms obtain h rs where a: "1 \<le> a" "a \<le> 3" and h: "hist = h @ map valueChanged rs"
    and len: "int (length rs) = 3 - a" and low: "\<forall>r \<in> set rs. r < THRESHOLD"
    and t: "True \<in> set (activations h)"
    by (auto simp: counter_inv_def)
  show "counter_inv (a - 1) (hist @ [valueChanged r])"
  proof (cases "a = 1")
    case True
    then show ?thesis by (simp add: counter_inv_def)
  next
    case False
    have "counter_inv (a - 1) (h @ map valueChanged (rs @ [r]))"
      by (rule counter_invI) (use a False len low assms(3) t in auto)
    then show ?thesis by (simp add: h)
  qed
  show "three_low_before (hist @ [valueChanged r])" if "a - 1 = 0"
  proof -
    from that len have "length rs = 2" by simp
    then obtain r1 r2 where rs: "rs = [r1, r2]"
      by (metis (no_types, opaque_lifting) One_nat_def Suc_1 length_0_conv length_Suc_conv)
    show ?thesis unfolding three_low_before_def
      using low t assms(3) by (intro exI [of _ h] exI [of _ r1] exI [of _ r2] exI [of _ r]) (simp add: h rs)
  qed
qed

lemma iter_inv:
  assumes inv: "counter_inv (is_activated d) hist" and just: "deactivations_justified hist"
  shows "counter_inv (is_activated (fst (processSamples_iter d x))) (hist @ snd (processSamples_iter d x))
         \<and> deactivations_justified (hist @ snd (processSamples_iter d x))"
proof (cases "block_pos d + 1 \<ge> N d")
  case False
  then show ?thesis using inv just by (simp add: iter_is_activated iter_signals)
next
  case True
  define r where "r = getMagnitudeSquared ((processSample d x)\<lparr>block_pos := block_pos d + 1\<rparr>)"
  have j1: "deactivations_justified (hist @ [valueChanged r])"
    by (rule justified_snoc [OF just]) simp
  show ?thesis
  proof (cases "r \<ge> THRESHOLD")
    case high: True
    have sig: "snd (processSamples_iter d x) =
        valueChanged r # (if is_activated d = 0 then [activated True] else [])"
      and act: "is_activated (fst (processSamples_iter d x)) = 3"
      using True high by (simp_all add: iter_is_activated iter_signals r_def)
    have "deactivations_justified ((hist @ [valueChanged r]) @ [activated True])"
      by (rule justified_snoc [OF j1]) simp
    then have "deactivations_justified (hist @ snd (processSamples_iter d x))"
      using j1 by (simp add: sig)
    then show ?thesis using counter_inv_high [OF inv, of r] by (simp only: sig act simp_thms)
  next
    case low: False
    show ?thesis
    proof (cases "is_activated d = 0")
      case a0: True
      have sig: "snd (processSamples_iter d x) = [valueChanged r]"
        and act: "is_activated (fst (processSamples_iter d x)) = 0"
        using True low a0 by (simp_all add: iter_is_activated iter_signals r_def)
      show ?thesis using j1 by (simp add: sig act counter_inv_def)
    next
      case an: False
      from low have lt: "r < THRESHOLD" by simp
      have sig: "snd (processSamples_iter d x) =
          valueChanged r # (if is_activated d - 1 = 0 then [activated False] else [])"
        and act: "is_activated (fst (processSamples_iter d x)) = is_activated d - 1"
        using True low an by (simp_all add: iter_is_activated iter_signals r_def)
      note cl = counter_inv_low [OF inv an lt]
      have "deactivations_justified ((hist @ [valueChanged r]) @ [activated False])"
        if "is_activated d - 1 = 0"
        by (rule justified_snoc [OF j1]) (use cl(2) that in simp)
      then have "deactivations_justified (hist @ snd (processSamples_iter d x))"
        using j1 by (simp add: sig)
      moreover have "counter_inv (is_activated d - 1) (hist @ snd (processSamples_iter d x))"
      proof (cases "is_activated d - 1 = 0")
        case True
        then show ?thesis by (simp add: counter_inv_def)
      next
        case False
        then show ?thesis using cl(1) by (simp add: sig)
      qed
      ultimately show ?thesis by (simp only: act simp_thms)
    qed
  qed
qed

lemma loop_justified:
  "counter_inv (is_activated d) hist \<Longrightarrow> deactivations_justified hist \<Longrightarrow>
   deactivations_justified (hist @ snd (processSamples_loop d xs))"
proof (induction xs arbitrary: d hist)
  case Nil
  then show ?case by simp
next
  case (Cons x xs)
  let ?d1 = "fst (processSamples_iter d x)"
  let ?s1 = "snd (processSamples_iter d x)"
  have sig: "snd (processSamples_loop d (x # xs)) = ?s1 @ snd (processSamples_loop ?d1 xs)"
    by (simp add: Let_def case_prod_beta)
  from iter_inv [OF Cons.prems, of x]
  have "counter_inv (is_activated ?d1) (hist @ ?s1)" "deactivations_justified (hist @ ?s1)"
    by blast+
  from Cons.IH [OF this] show ?case unfolding sig by simp
qed

lemma blockEnd_counter_range:
  "0 \<le> is_activated d \<Longrightarrow> is_activated d \<le> 3 \<Longrightarrow>
   0 \<le> is_activated (fst (blockEnd d)) \<and> is_activated (fst (blockEnd d)) \<le> 3"
  by (simp add: blockEnd_is_activated)

lemma loop_counter_range:
  "0 \<le> is_activated d \<Longrightarrow> is_activated d \<le> 3 \<Longrightarrow>
   0 \<le> is_activated (fst (processSamples_loop d xs))
   \<and> is_activated (fst (processSamples_loop d xs)) \<le> 3"
proof (induction xs arbitrary: d)
  case Nil
  then show ?case by simp
next
  case (Cons x xs)
  let ?d1 = "fst (processSamples_iter d x)"
  have st: "fst (processSamples_loop d (x # xs)) = fst (processSamples_loop ?d1 xs)"
    by (simp add: Let_def case_prod_beta)
  have "0 \<le> is_activated ?d1 \<and> is_activated ?d1 \<le> 3"
    using Cons.prems by (simp add: iter_is_activated Let_def)
  then show ?case unfolding st using Cons.IH [of ?d1] by blast
qed

lemma loop_nonneg:
  "0 \<le> is_activated d \<Longrightarrow> 0 \<le> is_activated (fst (processSamples_loop d xs))"
proof (induction xs arbitrary: d)
  case Nil
  then show ?case by simp
next
  case (Cons x xs)
  let ?d1 = "fst (processSamples_iter d x)"
  have st: "fst (processSamples_loop d (x # xs)) = fst (processSamples_loop ?d1 xs)"
    by (simp add: Let_def case_prod_beta)
  have "0 \<le> is_activated ?d1"
    using Cons.prems by (simp add: iter_is_activated Let_def)
  then show ?case unfolding st by (rule Cons.IH)
qed

lemma activation_rule_code:
  assumes "0 \<le> a"
  shows "fst (activation_rule a r) =
           (if r \<ge> THRESHOLD then 3 else if a \<noteq> 0 then a - 1 else a)"
    and "snd (activation_rule a r) =
           (if r \<ge> THRESHOLD then (if a = 0 then [activated True] else [])
            else if a \<noteq> 0 then (if a - 1 = 0 then [activated False] else [])
            else [])"
  using assms by (auto simp: activation_rule_def)

lemma activation_rule_nonneg: "0 \<le> a \<Longrightarrow> 0 \<le> fst (activation_rule a r)"
  by (auto simp: activation_rule_def)

lemma activation_run_Cons:
  "activation_run a (r # rs) =
     (fst (activation_run (fst (activation_rule a r)) rs),
      valueChanged r # snd (activation_rule a r) @ snd (activation_run (fst (activation_rule a r)) rs))"
  by (simp add: case_prod_beta)

lemma getMagnitudeSquared_block_pos [simp]:
  "getMagnitudeSquared (d\<lparr>block_pos := k\<rparr>) = getMagnitudeSquared d"
  by (simp add: getMagnitudeSquared_def)

lemma blockEnd_result: "result (fst (blockEnd d)) = getMagnitudeSquared d"
  by (simp add: blockEnd_def resetGoertzel_def Let_def split: prod.splits)

lemma loop_snoc:
  "processSamples_loop d (pre @ [x]) =
     (fst (processSamples_iter (fst (processSamples_loop d pre)) x),
      snd (processSamples_loop d pre) @ snd (processSamples_iter (fst (processSamples_loop d pre)) x))"
  by (simp add: loop_append Let_def case_prod_beta)

lemma loop_blocks_rule:
  assumes "\<forall>b \<in> set bs. int (length b) = N d" and "block_pos d = 0" and "1 \<le> N d"
    and "Qs d = (0, 0)" and "0 \<le> is_activated d"
  shows "snd (processSamples_loop d (concat bs)) =
           snd (activation_run (is_activated d) (map (block_result (coeff d)) bs))
         \<and> is_activated (fst (processSamples_loop d (concat bs))) =
           fst (activation_run (is_activated d) (map (block_result (coeff d)) bs))"
  using assms
proof (induction bs arbitrary: d)
  case Nil
  then show ?case by simp
next
  case (Cons b bs)
  define d1 where "d1 = fst (processSamples_loop d b)"
  define r where "r = block_result (coeff d) b"
  define a where "a = is_activated d"
  have a0: "0 \<le> a" using Cons.prems(5) by (simp add: a_def)
  have len: "int (length b) = N d" using Cons.prems(1) by simp
  note one = loop_one_block [OF len Cons.prems(2) Cons.prems(3) Cons.prems(4), unfolded Let_def,
      folded d1_def r_def a_def]
  have s1': "snd (processSamples_loop d b) = block_signals a [r]"
    and c1: "coeff d1 = coeff d" and n1': "N d1 = N d" and p1: "block_pos d1 = 0"
    and q1: "Qs d1 = (0, 0)"
    and act1': "is_activated d1 = (if r \<ge> THRESHOLD then 3 else if a \<noteq> 0 then a - 1 else a)"
    using one by blast+
  have act1: "is_activated d1 = fst (activation_rule a r)"
    unfolding act1' by (simp only: activation_rule_code(1) [OF a0])
  have "block_signals a [r] = valueChanged r # snd (activation_rule a r)"
    by (simp add: activation_rule_code(2) [OF a0])
  with s1' have s1: "snd (processSamples_loop d b) = valueChanged r # snd (activation_rule a r)"
    by (simp only:)
  have all1: "\<forall>b \<in> set bs. int (length b) = N d1" using Cons.prems(1) by (simp add: n1')
  have n1: "1 \<le> N d1" using Cons.prems(3) by (simp add: n1')
  have a1: "0 \<le> is_activated d1" unfolding act1 by (rule activation_rule_nonneg [OF a0])
  note ih = Cons.IH [OF all1 p1 n1 q1 a1, unfolded c1 act1]
  have sig: "snd (processSamples_loop d (concat (b # bs))) =
        snd (processSamples_loop d b) @ snd (processSamples_loop d1 (concat bs))"
    by (simp add: loop_append Let_def case_prod_beta d1_def)
  have st: "fst (processSamples_loop d (concat (b # bs))) = fst (processSamples_loop d1 (concat bs))"
    by (simp add: loop_append Let_def case_prod_beta d1_def)
  have run: "activation_run a (map (block_result (coeff d)) (b # bs)) =
      (fst (activation_run (fst (activation_rule a r)) (map (block_result (coeff d)) bs)),
       valueChanged r # snd (activation_rule a r) @
         snd (activation_run (fst (activation_rule a r)) (map (block_result (coeff d)) bs)))"
    unfolding list.map r_def by (rule activation_run_Cons)
  have S: "snd (processSamples_loop d (concat (b # bs))) =
      snd (activation_run a (map (block_result (coeff d)) (b # bs)))"
    unfolding sig s1 run using ih by simp
  have A: "is_activated (fst (processSamples_loop d (concat (b # bs)))) =
      fst (activation_run a (map (block_result (coeff d)) (b # bs)))"
    unfolding st run using ih by simp
  from S A show ?case unfolding a_def by blast
qed

text \<open>
  C3. The constructor sets the counter to 0. A detector whose counter is not negative is
  given the samples \<open>pre\<close> and then the sample \<open>x\<close>; \<open>d1\<close> is the detector when \<open>x\<close>
  arrives, and its counter is not negative either. If \<open>x\<close> completes a block,
  \<open>processSamples\<close> emits the block's result \<open>r\<close> and then what the activation rule of the
  specification says for the counter of \<open>d1\<close> and \<open>r\<close>, and the counter and the stored
  result after \<open>x\<close> are the rule's counter and \<open>r\<close>; if it does not, nothing is emitted
  and the counter stays. For a detector at the start of a block that is given whole
  blocks, the signals and the final counter are those of the rule run over the results
  of the blocks. Hence the activation signals of any call alternate, starting with
  \<open>True\<close> iff the counter was 0, and when the counter was 0 every \<open>activated False\<close>
  comes right after the values of three consecutive blocks below the threshold,
  themselves after an activation.
\<close>

theorem activation_hysteresis:
  assumes a: "0 \<le> is_activated d"
  shows "(let d1 = fst (snd (processSamples d pre));
              r = getMagnitudeSquared (processSample d1 x);
              d2 = fst (snd (processSamples d (pre @ [x])))
          in 0 \<le> is_activated d1
             \<and> (if N d1 \<le> block_pos d1 + 1 then
                  snd (snd (processSamples d (pre @ [x]))) =
                    snd (snd (processSamples d pre)) @
                      valueChanged r # snd (activation_rule (is_activated d1) r)
                  \<and> is_activated d2 = fst (activation_rule (is_activated d1) r)
                  \<and> result d2 = r
                else
                  snd (snd (processSamples d (pre @ [x]))) = snd (snd (processSamples d pre))
                  \<and> is_activated d2 = is_activated d1))
         \<and> (1 \<le> N d \<and> block_pos d = 0 \<and> Q1 d = 0 \<and> Q2 d = 0
              \<and> (\<forall>b \<in> set bs. int (length b) = N d) \<longrightarrow>
              snd (snd (processSamples d (concat bs))) =
                snd (activation_run (is_activated d) (map (block_result (coeff d)) bs))
              \<and> is_activated (fst (snd (processSamples d (concat bs)))) =
                fst (activation_run (is_activated d) (map (block_result (coeff d)) bs)))
         \<and> alternating (is_activated d = 0) (activations (snd (snd (processSamples d xs))))
         \<and> (is_activated d = 0 \<longrightarrow> deactivations_justified (snd (snd (processSamples d xs))))
         \<and> is_activated (ToneDetector_ctor tone_hz base_N) = 0"
proof (intro conjI impI)
  define d1 where "d1 = fst (processSamples_loop d pre)"
  define r where "r = getMagnitudeSquared (processSample d1 x)"
  have a1: "0 \<le> is_activated d1" unfolding d1_def by (rule loop_nonneg [OF a])
  have sn: "processSamples_loop d (pre @ [x]) =
      (fst (processSamples_iter d1 x), snd (processSamples_loop d pre) @ snd (processSamples_iter d1 x))"
    unfolding d1_def by (rule loop_snoc)
  have step: "if N d1 \<le> block_pos d1 + 1 then
        snd (processSamples_loop d (pre @ [x])) =
          snd (processSamples_loop d pre) @ valueChanged r # snd (activation_rule (is_activated d1) r)
        \<and> is_activated (fst (processSamples_loop d (pre @ [x]))) = fst (activation_rule (is_activated d1) r)
        \<and> result (fst (processSamples_loop d (pre @ [x]))) = r
      else
        snd (processSamples_loop d (pre @ [x])) = snd (processSamples_loop d pre)
        \<and> is_activated (fst (processSamples_loop d (pre @ [x]))) = is_activated d1"
  proof (cases "N d1 \<le> block_pos d1 + 1")
    case True
    have s: "snd (processSamples_iter d1 x) = valueChanged r # snd (activation_rule (is_activated d1) r)"
      using True by (simp add: iter_signals Let_def r_def activation_rule_code(2) [OF a1])
    have c: "is_activated (fst (processSamples_iter d1 x)) = fst (activation_rule (is_activated d1) r)"
      using True by (simp add: iter_is_activated Let_def r_def activation_rule_code(1) [OF a1])
    have v: "result (fst (processSamples_iter d1 x)) = r"
      using True by (simp add: iter_boundary blockEnd_result r_def)
    from True s c v show ?thesis by (simp add: sn)
  next
    case False
    have "snd (processSamples_iter d1 x) = []"
      and "is_activated (fst (processSamples_iter d1 x)) = is_activated d1"
      using False by (simp_all add: iter_signals iter_is_activated)
    with False show ?thesis by (simp add: sn)
  qed
  from a1 step show "let d1 = fst (snd (processSamples d pre));
              r = getMagnitudeSquared (processSample d1 x);
              d2 = fst (snd (processSamples d (pre @ [x])))
          in 0 \<le> is_activated d1
             \<and> (if N d1 \<le> block_pos d1 + 1 then
                  snd (snd (processSamples d (pre @ [x]))) =
                    snd (snd (processSamples d pre)) @
                      valueChanged r # snd (activation_rule (is_activated d1) r)
                  \<and> is_activated d2 = fst (activation_rule (is_activated d1) r)
                  \<and> result d2 = r
                else
                  snd (snd (processSamples d (pre @ [x]))) = snd (snd (processSamples d pre))
                  \<and> is_activated d2 = is_activated d1)"
    unfolding Let_def processSamples_def snd_conv d1_def r_def by blast
next
  assume h: "1 \<le> N d \<and> block_pos d = 0 \<and> Q1 d = 0 \<and> Q2 d = 0
              \<and> (\<forall>b \<in> set bs. int (length b) = N d)"
  then have q: "Qs d = (0, 0)" by (simp add: Qs_def)
  from h have bs: "\<forall>b \<in> set bs. int (length b) = N d" and pos: "block_pos d = 0" and n: "1 \<le> N d"
    by blast+
  note blocks = loop_blocks_rule [OF bs pos n q a]
  from blocks show "snd (snd (processSamples d (concat bs))) =
      snd (activation_run (is_activated d) (map (block_result (coeff d)) bs))"
    by (simp add: processSamples_def)
  from blocks show "is_activated (fst (snd (processSamples d (concat bs)))) =
      fst (activation_run (is_activated d) (map (block_result (coeff d)) bs))"
    by (simp add: processSamples_def)
next
  from alternating_loop [of d xs]
  show "alternating (is_activated d = 0) (activations (snd (snd (processSamples d xs))))"
    by (simp add: processSamples_def)
next
  assume z: "is_activated d = 0"
  have "counter_inv (is_activated d) []" using z by (simp add: counter_inv_def)
  from loop_justified [OF this justified_Nil, of xs]
  show "deactivations_justified (snd (snd (processSamples d xs)))"
    by (simp add: processSamples_def)
next
  show "is_activated (ToneDetector_ctor tone_hz base_N) = 0"
    by (simp add: ToneDetector_ctor_def resetGoertzel_def Let_def)
qed

theorem activation_hysteresis_witness:
  "0 \<le> is_activated (ToneDetector_ctor 0 9)
   \<and> N (ToneDetector_ctor 0 9) = 9 \<and> block_pos (ToneDetector_ctor 0 9) = 0
   \<and> Q1 (ToneDetector_ctor 0 9) = 0 \<and> Q2 (ToneDetector_ctor 0 9) = 0
   \<and> snd (snd (processSamples (ToneDetector_ctor 0 9)
        (concat [[0x7FFF, 0x7FFF, 0x7FFF, 0x7FFF, 0x7FFF, 0x7FFF, 0x7FFF, 0x7FFF, 0x7FFF],
                 [0x8000, 0x8000, 0x8000, 0x8000, 0x8000, 0x8000, 0x8000, 0x8000, 0x8000],
                 [0x8000, 0x8000, 0x8000, 0x8000, 0x8000, 0x8000, 0x8000, 0x8000, 0x8000],
                 [0x8000, 0x8000, 0x8000, 0x8000, 0x8000, 0x8000, 0x8000, 0x8000, 0x8000]])))
       = [valueChanged 5267025, activated True, valueChanged 0, valueChanged 0, valueChanged 0,
          activated False]
   \<and> is_activated (fst (snd (processSamples (ToneDetector_ctor 0 9)
        (concat [[0x7FFF, 0x7FFF, 0x7FFF, 0x7FFF, 0x7FFF, 0x7FFF, 0x7FFF, 0x7FFF, 0x7FFF],
                 [0x8000, 0x8000, 0x8000, 0x8000, 0x8000, 0x8000, 0x8000, 0x8000, 0x8000],
                 [0x8000, 0x8000, 0x8000, 0x8000, 0x8000, 0x8000, 0x8000, 0x8000, 0x8000],
                 [0x8000, 0x8000, 0x8000, 0x8000, 0x8000, 0x8000, 0x8000, 0x8000, 0x8000]])))) = 0
   \<and> is_activated (fst (snd (processSamples (ToneDetector_ctor 0 9)
        [0x7FFF, 0x7FFF, 0x7FFF, 0x7FFF, 0x7FFF, 0x7FFF, 0x7FFF, 0x7FFF, 0x7FFF,
         0x8000, 0x8000, 0x8000, 0x8000, 0x8000, 0x8000, 0x8000, 0x8000, 0x8000,
         0x8000, 0x8000, 0x8000, 0x8000, 0x8000, 0x8000, 0x8000, 0x8000, 0x8000,
         0x8000, 0x8000, 0x8000, 0x8000, 0x8000, 0x8000, 0x8000, 0x8000]))) = 1
   \<and> snd (snd (processSamples (ToneDetector_ctor 0 9)
        ([0x7FFF, 0x7FFF, 0x7FFF, 0x7FFF, 0x7FFF, 0x7FFF, 0x7FFF, 0x7FFF, 0x7FFF,
          0x8000, 0x8000, 0x8000, 0x8000, 0x8000, 0x8000, 0x8000, 0x8000, 0x8000,
          0x8000, 0x8000, 0x8000, 0x8000, 0x8000, 0x8000, 0x8000, 0x8000, 0x8000,
          0x8000, 0x8000, 0x8000, 0x8000, 0x8000, 0x8000, 0x8000, 0x8000] @ [0x8000])))
       = snd (snd (processSamples (ToneDetector_ctor 0 9)
          [0x7FFF, 0x7FFF, 0x7FFF, 0x7FFF, 0x7FFF, 0x7FFF, 0x7FFF, 0x7FFF, 0x7FFF,
           0x8000, 0x8000, 0x8000, 0x8000, 0x8000, 0x8000, 0x8000, 0x8000, 0x8000,
           0x8000, 0x8000, 0x8000, 0x8000, 0x8000, 0x8000, 0x8000, 0x8000, 0x8000,
           0x8000, 0x8000, 0x8000, 0x8000, 0x8000, 0x8000, 0x8000, 0x8000]))
         @ [valueChanged 0, activated False]
   \<and> alternating True (activations (snd (snd (processSamples (ToneDetector_ctor 0 9)
        (concat [[0x7FFF, 0x7FFF, 0x7FFF, 0x7FFF, 0x7FFF, 0x7FFF, 0x7FFF, 0x7FFF, 0x7FFF],
                 [0x8000, 0x8000, 0x8000, 0x8000, 0x8000, 0x8000, 0x8000, 0x8000, 0x8000],
                 [0x8000, 0x8000, 0x8000, 0x8000, 0x8000, 0x8000, 0x8000, 0x8000, 0x8000],
                 [0x8000, 0x8000, 0x8000, 0x8000, 0x8000, 0x8000, 0x8000, 0x8000, 0x8000]])))))
   \<and> deactivations_justified (snd (snd (processSamples (ToneDetector_ctor 0 9)
        (concat [[0x7FFF, 0x7FFF, 0x7FFF, 0x7FFF, 0x7FFF, 0x7FFF, 0x7FFF, 0x7FFF, 0x7FFF],
                 [0x8000, 0x8000, 0x8000, 0x8000, 0x8000, 0x8000, 0x8000, 0x8000, 0x8000],
                 [0x8000, 0x8000, 0x8000, 0x8000, 0x8000, 0x8000, 0x8000, 0x8000, 0x8000],
                 [0x8000, 0x8000, 0x8000, 0x8000, 0x8000, 0x8000, 0x8000, 0x8000, 0x8000]]))))"
proof -
  let ?d = "ToneDetector_ctor 0 9"
  let ?hi = "[0x7FFF, 0x7FFF, 0x7FFF, 0x7FFF, 0x7FFF, 0x7FFF, 0x7FFF, 0x7FFF, 0x7FFF] :: 16 word list"
  let ?lo = "[0x8000, 0x8000, 0x8000, 0x8000, 0x8000, 0x8000, 0x8000, 0x8000, 0x8000] :: 16 word list"
  let ?bs = "[?hi, ?lo, ?lo, ?lo]"
  let ?pre = "[0x7FFF, 0x7FFF, 0x7FFF, 0x7FFF, 0x7FFF, 0x7FFF, 0x7FFF, 0x7FFF, 0x7FFF,
         0x8000, 0x8000, 0x8000, 0x8000, 0x8000, 0x8000, 0x8000, 0x8000, 0x8000,
         0x8000, 0x8000, 0x8000, 0x8000, 0x8000, 0x8000, 0x8000, 0x8000, 0x8000,
         0x8000, 0x8000, 0x8000, 0x8000, 0x8000, 0x8000, 0x8000, 0x8000] :: 16 word list"
  let ?e = "fst (snd (processSamples ?d ?pre))"
  have a: "0 \<le> is_activated ?d" and z: "is_activated ?d = 0" and n: "N ?d = 9"
    and p: "block_pos ?d = 0" and q: "Q1 ?d = 0" "Q2 ?d = 0" and c: "coeff ?d = 2"
    by (simp_all add: ctor_0_fields)
  have b: "\<forall>b \<in> set ?bs. int (length b) = N ?d" by (simp add: n)
  have v: "map (block_result (coeff ?d)) ?bs = [5267025, 0, 0, 0]"
    by (simp add: c block_result_def goertzel_step_def us)
  have run: "activation_run 0 [5267025, 0, 0, 0] =
      (0, [valueChanged 5267025, activated True, valueChanged 0, valueChanged 0, valueChanged 0,
           activated False])"
    by (simp add: activation_rule_def THRESHOLD_def)
  have e: "N ?e = 9" "block_pos ?e = 8" "is_activated ?e = 1" "Q1 ?e = 0" "Q2 ?e = 0"
    by (simp_all add: processSamples_def ToneDetector_ctor_def resetGoertzel_def Let_def
      processSamples_iter_def processSample_def blockEnd_def getMagnitudeSquared_def us THRESHOLD_def)
  have r: "getMagnitudeSquared (processSample ?e 0x8000) = 0"
    by (simp add: getMagnitudeSquared_def processSample_def Let_def us e)
  have rule: "activation_rule 1 0 = (0, [activated False])"
    by (simp add: activation_rule_def THRESHOLD_def)
  note th = activation_hysteresis [OF a, of ?pre "0x8000" ?bs "concat ?bs", unfolded Let_def]
  from th have "if N ?e \<le> block_pos ?e + 1 then
        snd (snd (processSamples ?d (?pre @ [0x8000]))) =
          snd (snd (processSamples ?d ?pre)) @
            valueChanged (getMagnitudeSquared (processSample ?e 0x8000)) #
              snd (activation_rule (is_activated ?e) (getMagnitudeSquared (processSample ?e 0x8000)))
        \<and> is_activated (fst (snd (processSamples ?d (?pre @ [0x8000])))) =
            fst (activation_rule (is_activated ?e) (getMagnitudeSquared (processSample ?e 0x8000)))
        \<and> result (fst (snd (processSamples ?d (?pre @ [0x8000])))) =
            getMagnitudeSquared (processSample ?e 0x8000)
      else
        snd (snd (processSamples ?d (?pre @ [0x8000]))) = snd (snd (processSamples ?d ?pre))
        \<and> is_activated (fst (snd (processSamples ?d (?pre @ [0x8000])))) = is_activated ?e"
    by blast
  then have step: "snd (snd (processSamples ?d (?pre @ [0x8000]))) =
      snd (snd (processSamples ?d ?pre)) @ [valueChanged 0, activated False]"
    unfolding r e rule by simp
  from th n p q b have "snd (snd (processSamples ?d (concat ?bs))) =
        snd (activation_run (is_activated ?d) (map (block_result (coeff ?d)) ?bs))
      \<and> is_activated (fst (snd (processSamples ?d (concat ?bs)))) =
        fst (activation_run (is_activated ?d) (map (block_result (coeff ?d)) ?bs))"
    by simp
  then have blocks: "snd (snd (processSamples ?d (concat ?bs))) =
        [valueChanged 5267025, activated True, valueChanged 0, valueChanged 0, valueChanged 0,
         activated False]"
      "is_activated (fst (snd (processSamples ?d (concat ?bs)))) = 0"
    unfolding v z run by simp_all
  from th z have alt: "alternating True (activations (snd (snd (processSamples ?d (concat ?bs)))))"
    and just: "deactivations_justified (snd (snd (processSamples ?d (concat ?bs))))"
    by simp_all
  from a n p q blocks e(3) step alt just show ?thesis by blast
qed

subsection \<open>Silence\<close>

text \<open>
  C2, as the specification states it, fails: a sample of value 0 has the code 128, not 0.
  With a 2000 Hz detector and blocks of 2, two zero samples signal the value 32768; with
  a 0 Hz detector and blocks of 18, eighteen zero samples signal an activation.
\<close>

theorem silence_counterexample:
  "snd (snd (processSamples (ToneDetector_ctor 2000 2) [0, 0])) = [valueChanged 32768]
   \<and> snd (snd (processSamples (ToneDetector_ctor 2000 2) [0, 0])) \<noteq> [valueChanged 0]
   \<and> snd (snd (processSamples (ToneDetector_ctor 0 18)
          [0, 0, 0, 0, 0, 0, 0, 0, 0, 0, 0, 0, 0, 0, 0, 0, 0, 0]))
       = [valueChanged 5308416, activated True]"
proof -
  have a: "snd (snd (processSamples (ToneDetector_ctor 2000 2) [0, 0])) = [valueChanged 32768]"
    by (simp add: processSamples_def ToneDetector_ctor_def resetGoertzel_def Let_def
      processSamples_iter_def processSample_def blockEnd_def getMagnitudeSquared_def us
      THRESHOLD_def SAMPLING_RATE_def)
  have b: "snd (snd (processSamples (ToneDetector_ctor 0 18)
          [0, 0, 0, 0, 0, 0, 0, 0, 0, 0, 0, 0, 0, 0, 0, 0, 0, 0]))
       = [valueChanged 5308416, activated True]"
    by (simp add: processSamples_def ToneDetector_ctor_def resetGoertzel_def Let_def
      processSamples_iter_def processSample_def blockEnd_def getMagnitudeSquared_def us
      THRESHOLD_def)
  from a b show ?thesis by simp
qed

lemma replicate_blocks: "replicate (k * n) x = concat (replicate k (replicate n x))"
  by (induction k) (simp_all add: replicate_add)

lemma activations_high:
  "r \<ge> THRESHOLD \<Longrightarrow> a \<noteq> 0 \<Longrightarrow> activations (block_signals a (replicate k r)) = []"
  by (induction k arbitrary: a) simp_all

lemma activations_high_0:
  "r \<ge> THRESHOLD \<Longrightarrow> activations (block_signals 0 (replicate (Suc k) r)) = [True]"
  using activations_high [of r 3 k] by simp

lemma activations_low_0:
  "\<not> r \<ge> THRESHOLD \<Longrightarrow> activations (block_signals 0 (replicate k r)) = []"
  by (induction k) simp_all

lemma foldl_zero_code:
  "foldl (goertzel_step c) (0, 0) (replicate n 0x8000) = (0, 0)"
  by (induction n) (simp_all add: goertzel_step_def us)

lemma block_result_zero_code: "block_result c (replicate n 0x8000) = 0"
  by (simp add: block_result_def foldl_zero_code)

lemma constant_input_signals:
  assumes n: "1 \<le> N d" and pos: "block_pos d = 0" and q1: "Q1 d = 0" and q2: "Q2 d = 0"
  shows "snd (snd (processSamples d (replicate (k * nat (N d)) x))) =
         block_signals (is_activated d) (replicate k (block_result (coeff d) (replicate (nat (N d)) x)))"
proof -
  have q: "Qs d = (0, 0)" using q1 q2 by (simp add: Qs_def)
  have bs: "\<forall>b \<in> set (replicate k (replicate (nat (N d)) x)). int (length b) = N d"
    using n by simp
  from loop_blocks [OF bs pos n q] show ?thesis
    by (simp add: processSamples_def replicate_blocks)
qed

text \<open>
  C2, amended. A detector at the start of a block with the counter at 0 is given
  \<open>k * N\<close> zero samples, \<open>k \<ge> 1\<close>. A zero sample has the code 128. The detector signals
  exactly \<open>k\<close> values, all equal to the result \<open>r\<close> of a block of \<open>N\<close> zero samples; it
  never signals a deactivation, and it signals one activation iff \<open>r\<close> reaches the
  threshold. The \<open>k\<close> values 0 without any activation signal are what \<open>k * N\<close> samples
  of value -32768, whose code is 0, produce.
\<close>

theorem silence_blocks:
  assumes n: "1 \<le> N d" and pos: "block_pos d = 0" and q1: "Q1 d = 0" and q2: "Q2 d = 0"
    and a: "is_activated d = 0" and k: "1 \<le> k"
  shows "usample 0 = 128
    \<and> (let r = block_result (coeff d) (replicate (nat (N d)) 0);
            sigs = snd (snd (processSamples d (replicate (k * nat (N d)) 0)))
        in changes sigs = replicate k r
           \<and> activations sigs = (if r \<ge> THRESHOLD then [True] else []))
    \<and> (let sigs = snd (snd (processSamples d (replicate (k * nat (N d)) 0x8000)))
        in usample 0x8000 = 0 \<and> changes sigs = replicate k 0 \<and> activations sigs = [])"
proof -
  from k obtain k' where k': "k = Suc k'" by (cases k) auto
  have z: "\<not> (0 :: real) \<ge> THRESHOLD" by (simp add: THRESHOLD_def)
  show ?thesis
    unfolding Let_def constant_input_signals [OF n pos q1 q2] a changes_block_signals
      block_result_zero_code
    using activations_high_0 [of "block_result (coeff d) (replicate (nat (N d)) 0)" k']
      activations_low_0 [of "block_result (coeff d) (replicate (nat (N d)) 0)" k]
      activations_low_0 [OF z, of k]
    by (simp add: us k')
qed

theorem silence_blocks_witness:
  "1 \<le> N (ToneDetector_ctor 2000 2) \<and> block_pos (ToneDetector_ctor 2000 2) = 0
   \<and> Q1 (ToneDetector_ctor 2000 2) = 0 \<and> Q2 (ToneDetector_ctor 2000 2) = 0
   \<and> is_activated (ToneDetector_ctor 2000 2) = 0 \<and> (1 :: nat) \<le> 3
   \<and> changes (snd (snd (processSamples (ToneDetector_ctor 2000 2) (replicate (3 * 2) 0))))
       = [32768, 32768, 32768]
   \<and> activations (snd (snd (processSamples (ToneDetector_ctor 2000 2) (replicate (3 * 2) 0)))) = []
   \<and> changes (snd (snd (processSamples (ToneDetector_ctor 2000 2) (replicate (3 * 2) 0x8000))))
       = [0, 0, 0]"
proof -
  let ?d = "ToneDetector_ctor 2000 2"
  have h: "1 \<le> N ?d" "block_pos ?d = 0" "Q1 ?d = 0" "Q2 ?d = 0" "is_activated ?d = 0"
    by (simp_all add: ctor_2000_2_fields)
  have k: "(1 :: nat) \<le> 3" by simp
  have rep: "replicate 2 x = [x, x]" for x :: "16 word"
    by (simp add: numeral_2_eq_2)
  have r: "block_result 0 (replicate 2 0) = 32768"
    by (simp add: rep block_result_def goertzel_step_def us Let_def)
  from silence_blocks [OF h k] h show ?thesis
    by (simp add: Let_def r THRESHOLD_def ctor_2000_2_fields numeral_3_eq_3)
qed

section \<open>Properties of the state machine\<close>

subsection \<open>What the handlers change\<close>

lemma called_fields [simp]:
  "m_state (called e m) = m_state m" "m_ctx (called e m) = m_ctx m"
  "m_timer (called e m) = m_timer m" "next_obj (called e m) = next_obj m"
  "trace (called e m) = trace m @ [e]"
  by (simp_all add: called_def)

lemma clearTimeout_fields [simp]:
  "m_state (clearTimeout m) = m_state m" "m_ctx (clearTimeout m) = m_ctx m"
  "next_obj (clearTimeout m) = next_obj m" "trace (clearTimeout m) = trace m"
  "is_enabled (m_timer (clearTimeout m)) = False"
  "timeout_ms (m_timer (clearTimeout m)) = timeout_ms (m_timer m)"
  by (simp_all add: clearTimeout_def Timer_setEnable_def)

lemma setTimeout_fields [simp]:
  "m_state (setTimeout ms m) = m_state m" "m_ctx (setTimeout ms m) = m_ctx m"
  "next_obj (setTimeout ms m) = next_obj m" "trace (setTimeout ms m) = trace m"
  "is_enabled (m_timer (setTimeout ms m)) = True"
  "timeout_ms (m_timer (setTimeout ms m)) = ms"
  by (simp_all add: setTimeout_def Timer_setEnable_def Timer_setTimeout_def)

lemma run_action_fields [simp]:
  "m_state (run_action a m) = m_state m" "next_obj (run_action a m) = next_obj m"
  "trace (run_action a m) = trace m"
  by (cases a; simp)+

lemma run_actions_fields [simp]:
  "m_state (run_actions as m) = m_state m" "next_obj (run_actions as m) = next_obj m"
  "trace (run_actions as m) = trace m"
  by (induction as arbitrary: m; simp)+

lemma delete_state_fields [simp]:
  "m_state (delete_state ptr m) = m_state m" "m_ctx (delete_state ptr m) = m_ctx m"
  "m_timer (delete_state ptr m) = m_timer m" "next_obj (delete_state ptr m) = next_obj m"
  "trace (delete_state ptr m) = trace m @ (case ptr of None \<Rightarrow> [] | Some obj \<Rightarrow> [Delete obj])"
  by (simp_all add: delete_state_def split: option.splits)

lemma exitHandler_fields [simp]:
  "m_state (exitHandler p C to m) = m_state m" "next_obj (exitHandler p C to m) = next_obj m"
  by (induction C arbitrary: m; simp add: Let_def)+

lemma entryHandler_fields [simp]:
  "m_state (entryHandler p C from m) = m_state m" "next_obj (entryHandler p C from m) = next_obj m"
  by (induction C arbitrary: m; simp add: Let_def)+

lemma StateTopBase_in_bases [simp]: "StateTopBase \<in> set (bases C)"
  by (induction C) simp_all

lemma exitHandler_trace:
  "trace (exitHandler p C (Some b) m) =
     trace m @ map Exit (takeWhile (\<lambda>T. T \<notin> set (bases (obj_class b))) (bases C))"
proof (induction C arbitrary: m)
  case StateTopBase
  show ?case by simp
next
  case (StateBase ParentT T)
  show ?case by (simp add: Let_def dynamic_cast_null_def StateBase.IH)
qed

lemma entryHandler_trace:
  "trace (entryHandler p C (Some a) m) =
     trace m @ map Entry (rev (takeWhile (\<lambda>T. T \<notin> set (bases (obj_class a))) (bases C)))"
proof (induction C arbitrary: m)
  case StateTopBase
  show ?case by simp
next
  case (StateBase ParentT T)
  show ?case by (simp add: Let_def dynamic_cast_null_def StateBase.IH)
qed

lemma setState_Suc:
  "setState (Suc n) p B m =
     (let state = \<lparr>obj_id = new_addr p (next_obj m), obj_class = B\<rparr>;
          m0 = m\<lparr>next_obj := Suc (next_obj m)\<rparr>
      in if (case m_state m of None \<Rightarrow> False | Some old \<Rightarrow> B = obj_class old) then
           Some (delete_state (Some state) m0)
         else
           (case initHandler n p state m0 of
              None \<Rightarrow> None
            | Some m1 \<Rightarrow>
                if map_option obj_id (m_state m) \<noteq> map_option obj_id (m_state m1) then
                  Some (delete_state (Some state) m1)
                else
                  Some (delete_state (m_state m1)
                    (entryHandler p B (m_state m1)
                      (called (Install state)
                        ((case m_state m1 of None \<Rightarrow> m1
                          | Some old \<Rightarrow> exitHandler p (obj_class old) (Some state) m1)
                         \<lparr>m_state := Some state\<rparr>))))))"
  by (simp add: new_state_def initHandler_def Let_def split: option.splits)

lemmas demo_classes = StateTop_def StateA_def StateA1_def StateB_def StateB1_def

lemmas more_classes = StateA2_def StateR_def

lemmas hfsm_eval = setState_Suc initHandler_def demo_def demo_classes StateMachine_ctor_def
  Timer_ctor_def delete_state_def called_def dynamic_cast_null_def Let_def setTimeout_def
  clearTimeout_def Timer_setEnable_def Timer_setTimeout_def


lemmas reusing_eval = setState_Suc initHandler_def reusing_def demo_classes more_classes
  StateMachine_ctor_def Timer_ctor_def delete_state_def called_def dynamic_cast_null_def Let_def
  setTimeout_def clearTimeout_def Timer_setEnable_def Timer_setTimeout_def

text \<open>
  C5. \<open>setState<T>()\<close> while the current state has the class \<open>T\<close>: the call returns, the
  only call it makes is the \<open>delete\<close> of the candidate, and the machine is as before but
  for the address the candidate used.
\<close>

theorem setState_current_is_noop:
  assumes "m_state m = Some cur" and "obj_class cur = T"
  shows "setState (Suc n) p T m =
           Some (m\<lparr>next_obj := Suc (next_obj m),
                   trace := trace m @ [Delete \<lparr>obj_id = new_addr p (next_obj m), obj_class = T\<rparr>]\<rparr>)"
  using assms by (simp add: new_state_def delete_state_def called_def)

declare setState.simps(2) [simp del]

lemma demo_start:
  "setState (Suc (Suc (Suc 0))) demo StateTop (StateMachine_ctor ()) = Some started"
  by (simp add: hfsm_eval started_def)

lemma demo_switch:
  "setState (Suc 0) demo StateB1 started =
     Some (started\<lparr>m_state := Some \<lparr>obj_id = 3, obj_class = StateB1\<rparr>,
            m_timer := \<lparr>timeout_ms = 100, is_enabled = False\<rparr>, next_obj := 4,
            trace := trace started @
              [Init \<lparr>obj_id = 3, obj_class = StateB1\<rparr>, Exit StateA1, Exit StateA,
               Install \<lparr>obj_id = 3, obj_class = StateB1\<rparr>, Entry StateB, Entry StateB1,
               Delete \<lparr>obj_id = 2, obj_class = StateA1\<rparr>]\<rparr>)"
  by (simp add: hfsm_eval started_def)

theorem setState_current_is_noop_witness:
  "m_state started = Some \<lparr>obj_id = 2, obj_class = StateA1\<rparr>
   \<and> setState (Suc 0) demo StateA1 started =
       Some (started\<lparr>next_obj := 4, trace := trace started @ [Delete \<lparr>obj_id = 3, obj_class = StateA1\<rparr>]\<rparr>)"
proof -
  have c: "m_state started = Some \<lparr>obj_id = 2, obj_class = StateA1\<rparr>" by (simp add: started_def)
  have o: "obj_class \<lparr>obj_id = 2, obj_class = StateA1\<rparr> = StateA1" by simp
  have n: "next_obj started = 3" by (simp add: started_def)
  from setState_current_is_noop [OF c o, of 0 demo] c show ?thesis by (simp add: n demo_def)
qed

subsection \<open>Runs of \<open>setState\<close>\<close>

lemma setState_cases:
  assumes "setState (Suc n) p B m = Some m'"
  obtains (same) cur where "m_state m = Some cur" "obj_class cur = B"
      "m' = delete_state (Some \<lparr>obj_id = new_addr p (next_obj m), obj_class = B\<rparr>) (m\<lparr>next_obj := Suc (next_obj m)\<rparr>)"
    | (redirect) m1 where "\<forall>cur. m_state m = Some cur \<longrightarrow> obj_class cur \<noteq> B"
      "initHandler n p \<lparr>obj_id = new_addr p (next_obj m), obj_class = B\<rparr> (m\<lparr>next_obj := Suc (next_obj m)\<rparr>) = Some m1"
      "map_option obj_id (m_state m1) \<noteq> map_option obj_id (m_state m)"
      "m' = delete_state (Some \<lparr>obj_id = new_addr p (next_obj m), obj_class = B\<rparr>) m1"
    | (switch) m1 where "\<forall>cur. m_state m = Some cur \<longrightarrow> obj_class cur \<noteq> B"
      "initHandler n p \<lparr>obj_id = new_addr p (next_obj m), obj_class = B\<rparr> (m\<lparr>next_obj := Suc (next_obj m)\<rparr>) = Some m1"
      "map_option obj_id (m_state m1) = map_option obj_id (m_state m)"
      "m' = delete_state (m_state m1)
              (entryHandler p B (m_state m1)
                (called (Install \<lparr>obj_id = new_addr p (next_obj m), obj_class = B\<rparr>)
                  ((case m_state m1 of None \<Rightarrow> m1
                    | Some old \<Rightarrow> exitHandler p (obj_class old) (Some \<lparr>obj_id = new_addr p (next_obj m), obj_class = B\<rparr>) m1)
                   \<lparr>m_state := Some \<lparr>obj_id = new_addr p (next_obj m), obj_class = B\<rparr>\<rparr>)))"
proof -
  let ?state = "\<lparr>obj_id = new_addr p (next_obj m), obj_class = B\<rparr>"
  let ?m0 = "m\<lparr>next_obj := Suc (next_obj m)\<rparr>"
  show thesis
  proof (cases "case m_state m of None \<Rightarrow> False | Some old \<Rightarrow> B = obj_class old")
    case True
    then obtain cur where cur: "m_state m = Some cur" "obj_class cur = B"
      by (auto split: option.splits)
    from assms True have "m' = delete_state (Some ?state) ?m0"
      by (simp add: setState_Suc Let_def)
    with cur show thesis by (rule same)
  next
    case False
    then have ne: "\<forall>cur. m_state m = Some cur \<longrightarrow> obj_class cur \<noteq> B" by auto
    from assms False obtain m1 where i: "initHandler n p ?state ?m0 = Some m1"
      by (cases "initHandler n p ?state ?m0") (simp_all add: setState_Suc Let_def)
    show thesis
    proof (cases "map_option obj_id (m_state m1) = map_option obj_id (m_state m)")
      case True
      with assms False i have "m' = delete_state (m_state m1)
              (entryHandler p B (m_state m1)
                (called (Install ?state)
                  ((case m_state m1 of None \<Rightarrow> m1
                    | Some old \<Rightarrow> exitHandler p (obj_class old) (Some ?state) m1)
                   \<lparr>m_state := Some ?state\<rparr>)))"
        by (simp add: setState_Suc Let_def)
      with ne i True show thesis by (rule switch)
    next
      case F: False
      then have "map_option obj_id (m_state m) \<noteq> map_option obj_id (m_state m1)" by auto
      with assms False i have "m' = delete_state (Some ?state) m1"
        by (simp add: setState_Suc Let_def)
      with ne i F show thesis by (rule redirect)
    qed
  qed
qed

lemma setState_exec_state_not_None:
  shows "setState n p T m = Some m' \<Longrightarrow> m_state m' \<noteq> None"
    and "exec n p ss m = Some m' \<Longrightarrow> m_state m \<noteq> None \<Longrightarrow> m_state m' \<noteq> None"
proof (induction n p T m and n p ss m arbitrary: m' and m' rule: setState_exec.induct)
  case (1 p NewStateT m)
  then show ?case by simp
next
  case (2 n p NewStateT m)
  let ?state = "\<lparr>obj_id = new_addr p (next_obj m), obj_class = NewStateT\<rparr>"
  let ?m0 = "m\<lparr>next_obj := Suc (next_obj m)\<rparr>"
  from "2.prems" show ?case
  proof (cases rule: setState_cases)
    case (same cur)
    then show ?thesis by simp
  next
    case (redirect m1)
    show ?thesis
    proof (cases "m_state m")
      case None
      with redirect show ?thesis by simp
    next
      case (Some cur)
      with redirect(1) have c: "\<not> (case m_state ?m0 of None \<Rightarrow> False | Some old \<Rightarrow> NewStateT = obj_class old)"
        by auto
      have e: "exec n p (init p (obj_class ?state) (m_ctx ?m0)) (called (Init ?state) ?m0) = Some m1"
        using redirect(2) by (simp add: initHandler_def)
      have s: "m_state (called (Init ?state) ?m0) \<noteq> None" using Some by simp
      have "m_state m1 \<noteq> None"
        by (rule "2.IH" [of "new_state p NewStateT m" ?state ?m0 "m_state ?m0" m1, OF _ _ _ c e s])
          (simp_all add: new_state_def)
      with redirect show ?thesis by simp
    qed
  next
    case (switch m1)
    then show ?thesis by simp
  qed
next
  case (3 n p m)
  then show ?case by simp
next
  case (4 n p a ss m)
  then show ?case by simp
next
  case (5 n p T ss m)
  from "5.prems"(1) obtain m1 where s: "setState n p T m = Some m1" and e: "exec n p ss m1 = Some m'"
    by (auto split: option.splits)
  from "5.IH"(1) [OF s] have "m_state m1 \<noteq> None" .
  from "5.IH"(2) [OF s e this] show ?case .
qed

lemma setState_exec_steps:
  assumes refl: "\<And>m. R m m"
    and trans: "\<And>a b c. R a b \<Longrightarrow> R b c \<Longrightarrow> R a c"
    and alloc: "\<And>m. R m (m\<lparr>next_obj := Suc (next_obj m)\<rparr>)"
    and call: "\<And>m e. R m (called e m)"
    and action: "\<And>m a. R m (run_action a m)"
    and clear: "\<And>m. R m (clearTimeout m)"
    and install: "\<And>m s. R m (m\<lparr>m_state := Some s\<rparr>)"
  shows "setState n p T (m :: ('t, 'c) StateMachine) = Some m' \<Longrightarrow> R m m'"
    and "exec n p ss m = Some m' \<Longrightarrow> R m m'"
proof (induction n p T m and n p ss m arbitrary: m' and m' rule: setState_exec.induct)
  case (1 p NewStateT m)
  then show ?case by simp
next
  case (2 n p NewStateT m)
  let ?state = "\<lparr>obj_id = new_addr p (next_obj m), obj_class = NewStateT\<rparr>"
  let ?m0 = "m\<lparr>next_obj := Suc (next_obj m)\<rparr>"
  have actions: "R x (run_actions as x)" for as and x :: "('t, 'c) StateMachine"
    by (induction as arbitrary: x) (auto intro: refl trans action)
  have ex: "R x (exitHandler p C to x)" for C to and x :: "('t, 'c) StateMachine"
  proof (induction C arbitrary: x)
    case StateTopBase
    show ?case by (simp add: refl)
  next
    case (StateBase ParentT T)
    show ?case
      by (auto simp: Let_def intro: refl trans [OF clear] trans [OF call] trans [OF actions] StateBase.IH)
  qed
  have en: "R x (entryHandler p C from x)" for C "from" and x :: "('t, 'c) StateMachine"
  proof (induction C arbitrary: x)
    case StateTopBase
    show ?case by (simp add: refl)
  next
    case (StateBase ParentT T)
    show ?case
      by (auto simp: Let_def intro: refl trans [OF StateBase.IH] trans [OF call] actions)
  qed
  have del: "R x (delete_state ptr x)" for ptr and x :: "('t, 'c) StateMachine"
    by (cases ptr) (simp_all add: delete_state_def refl call)
  have init: "R ?m0 m1" if i: "initHandler n p ?state ?m0 = Some m1"
    and c: "\<forall>cur. m_state m = Some cur \<longrightarrow> obj_class cur \<noteq> NewStateT" for m1
  proof -
    from c have c': "\<not> (case m_state ?m0 of None \<Rightarrow> False | Some old \<Rightarrow> NewStateT = obj_class old)"
      by (auto split: option.splits)
    have e: "exec n p (init p (obj_class ?state) (m_ctx ?m0)) (called (Init ?state) ?m0) = Some m1"
      using i by (simp add: initHandler_def)
    have "R (called (Init ?state) ?m0) m1"
      by (rule "2.IH" [of "new_state p NewStateT m" ?state ?m0 "m_state ?m0" m1, OF _ _ _ c' e])
        (simp_all add: new_state_def)
    then show ?thesis by (rule trans [OF call])
  qed
  from "2.prems" show ?case
  proof (cases rule: setState_cases)
    case (same cur)
    then show ?thesis by (auto intro: trans [OF alloc del])
  next
    case (redirect m1)
    from trans [OF alloc init [OF redirect(2) redirect(1)]] del show ?thesis
      unfolding redirect(4) by (rule trans)
  next
    case (switch m1)
    have r1: "R ?m0 m1" by (rule init [OF switch(2) switch(1)])
    let ?m2 = "case m_state m1 of None \<Rightarrow> m1
               | Some old \<Rightarrow> exitHandler p (obj_class old) (Some ?state) m1"
    have r2: "R ?m0 ?m2" using r1 ex by (auto split: option.splits intro: trans)
    have r3: "R m (?m2\<lparr>m_state := Some ?state\<rparr>)"
      by (rule trans [OF trans [OF alloc r2] install])
    show ?thesis unfolding switch(4)
      by (rule trans [OF trans [OF trans [OF r3 call] en] del])
  qed
next
  case (3 n p m)
  then show ?case by (simp add: refl)
next
  case (4 n p a ss m)
  from "4.prems" have "exec n p ss (run_action a m) = Some m'" by simp
  from "4.IH" [OF this] show ?case by (rule trans [OF action])
next
  case (5 n p T ss m)
  from "5.prems"(1) obtain m1 where s: "setState n p T m = Some m1" and e: "exec n p ss m1 = Some m'"
    by (auto split: option.splits)
  from "5.IH"(1) [OF s] "5.IH"(2) [OF s e] show ?case by (rule trans)
qed

lemma setState_trace:
  assumes "setState n p T m = Some m'"
  shows "prefix (trace m) (trace m')"
  by (rule setState_exec_steps(1) [where R = "\<lambda>a b. prefix (trace a) (trace b)", OF _ _ _ _ _ _ _ assms])
    (auto intro: prefix_order.trans)

lemma exec_trace:
  assumes "exec n p ss m = Some m'"
  shows "prefix (trace m) (trace m')"
  by (rule setState_exec_steps(2) [where R = "\<lambda>a b. prefix (trace a) (trace b)", OF _ _ _ _ _ _ _ assms])
    (auto intro: prefix_order.trans)

text \<open>
  The bound on the nesting depth does not change what a run computes: a run that
  returns within a bound returns the same with a larger one.
\<close>

lemma fuel_mono:
  shows "setState n p T m = Some m' \<Longrightarrow> setState (Suc n) p T m = Some m'"
    and "exec n p ss m = Some m' \<Longrightarrow> exec (Suc n) p ss m = Some m'"
proof (induction n p T m and n p ss m arbitrary: m' and m' rule: setState_exec.induct)
  case (1 p NewStateT m)
  then show ?case by simp
next
  case (2 n p NewStateT m)
  let ?state = "\<lparr>obj_id = new_addr p (next_obj m), obj_class = NewStateT\<rparr>"
  let ?m0 = "m\<lparr>next_obj := Suc (next_obj m)\<rparr>"
  have ih: "initHandler (Suc n) p ?state ?m0 = Some m1"
    if i: "initHandler n p ?state ?m0 = Some m1"
    and c: "\<forall>cur. m_state m = Some cur \<longrightarrow> obj_class cur \<noteq> NewStateT" for m1
  proof -
    from c have c': "\<not> (case m_state ?m0 of None \<Rightarrow> False | Some old \<Rightarrow> NewStateT = obj_class old)"
      by (auto split: option.splits)
    have e: "exec n p (init p (obj_class ?state) (m_ctx ?m0)) (called (Init ?state) ?m0) = Some m1"
      using i by (simp add: initHandler_def)
    have "exec (Suc n) p (init p (obj_class ?state) (m_ctx ?m0)) (called (Init ?state) ?m0) = Some m1"
      by (rule "2.IH" [of "new_state p NewStateT m" ?state ?m0 "m_state ?m0" m1, OF _ _ _ c' e])
        (simp_all add: new_state_def)
    then show ?thesis by (simp add: initHandler_def)
  qed
  from "2.prems" show ?case
  proof (cases rule: setState_cases)
    case (same cur)
    then show ?thesis by (simp add: setState_Suc [of "Suc n"] Let_def)
  next
    case (redirect m1)
    from ih [OF redirect(2) redirect(1)] redirect show ?thesis
      by (auto simp: setState_Suc [of "Suc n"] Let_def split: option.splits)
  next
    case (switch m1)
    from ih [OF switch(2) switch(1)] switch show ?thesis
      by (auto simp: setState_Suc [of "Suc n"] Let_def split: option.splits)
  qed
next
  case (3 n p m)
  then show ?case by simp
next
  case (4 n p a ss m)
  then show ?case by simp
next
  case (5 n p T ss m)
  from "5.prems"(1) obtain m1 where s: "setState n p T m = Some m1" and e: "exec n p ss m1 = Some m'"
    by (auto split: option.splits)
  from "5.IH"(1) [OF s] "5.IH"(2) [OF s e] show ?case by simp
qed

text \<open>
  C4. The machine \<open>reusing\<close> after \<open>start()\<close> is in \<open>A1\<close>, at the address 2, and
  \<open>setState<R>()\<close> is called. \<open>init\<close> is the first call on the candidate, and it changes
  the current state twice, to \<open>B1\<close> and then to \<open>A2\<close>: when it returns the current state
  is an object of the class \<open>A2\<close>, at the address 2, which the allocator has used again.
  The test \<open>old_state != m_state\<close> compares the addresses and finds them equal, so
  \<open>setState\<close> does not delete the candidate and return: it runs the exit handlers of \<open>A2\<close>
  and \<open>A\<close>, installs the candidate, runs the entry handler of \<open>R\<close> and deletes the
  object the nested transition left, and the current state is the candidate.
\<close>

theorem redirect_missed_on_reused_address:
  "start (Suc (Suc (Suc 0))) reusing StateTop (StateMachine_ctor ()) = Some started
   \<and> m_state started = Some \<lparr>obj_id = 2, obj_class = StateA1\<rparr>
   \<and> initHandler (Suc 0) reusing \<lparr>obj_id = 3, obj_class = StateR\<rparr> (started\<lparr>next_obj := 4\<rparr>) =
       Some (started\<lparr>m_state := Some \<lparr>obj_id = 2, obj_class = StateA2\<rparr>,
              m_timer := \<lparr>timeout_ms = 100, is_enabled = False\<rparr>, next_obj := 6,
              trace := trace started @
                [Init \<lparr>obj_id = 3, obj_class = StateR\<rparr>,
                 Init \<lparr>obj_id = 4, obj_class = StateB1\<rparr>, Exit StateA1, Exit StateA,
                 Install \<lparr>obj_id = 4, obj_class = StateB1\<rparr>, Entry StateB, Entry StateB1,
                 Delete \<lparr>obj_id = 2, obj_class = StateA1\<rparr>,
                 Init \<lparr>obj_id = 2, obj_class = StateA2\<rparr>, Exit StateB1, Exit StateB,
                 Install \<lparr>obj_id = 2, obj_class = StateA2\<rparr>, Entry StateA, Entry StateA2,
                 Delete \<lparr>obj_id = 4, obj_class = StateB1\<rparr>]\<rparr>)
   \<and> setState (Suc (Suc 0)) reusing StateR started =
       Some (started\<lparr>m_state := Some \<lparr>obj_id = 3, obj_class = StateR\<rparr>,
              m_timer := \<lparr>timeout_ms = 100, is_enabled = False\<rparr>, next_obj := 6,
              trace := trace started @
                [Init \<lparr>obj_id = 3, obj_class = StateR\<rparr>,
                 Init \<lparr>obj_id = 4, obj_class = StateB1\<rparr>, Exit StateA1, Exit StateA,
                 Install \<lparr>obj_id = 4, obj_class = StateB1\<rparr>, Entry StateB, Entry StateB1,
                 Delete \<lparr>obj_id = 2, obj_class = StateA1\<rparr>,
                 Init \<lparr>obj_id = 2, obj_class = StateA2\<rparr>, Exit StateB1, Exit StateB,
                 Install \<lparr>obj_id = 2, obj_class = StateA2\<rparr>, Entry StateA, Entry StateA2,
                 Delete \<lparr>obj_id = 4, obj_class = StateB1\<rparr>,
                 Exit StateA2, Exit StateA,
                 Install \<lparr>obj_id = 3, obj_class = StateR\<rparr>, Entry StateR,
                 Delete \<lparr>obj_id = 2, obj_class = StateA2\<rparr>]\<rparr>)"
  by (simp add: start_def reusing_eval started_def)

subsection \<open>The common ancestor\<close>

lemma bases_size: "T \<in> set (bases C) \<Longrightarrow> size T \<le> size C"
  by (induction C) auto

lemma bases_distinct: "distinct (bases C)"
proof (induction C)
  case StateTopBase
  show ?case by simp
next
  case (StateBase ParentT T)
  have "StateBase ParentT T \<notin> set (bases ParentT)"
    using bases_size [of "StateBase ParentT T" ParentT] by auto
  with StateBase show ?case by simp
qed

lemma bases_self [simp]: "C \<in> set (bases C)"
  by (cases C) simp_all

lemma bases_hd: "\<exists>tl. bases C = C # tl"
  by (cases C) simp_all

lemma bases_suffix: "T \<in> set (bases C) \<Longrightarrow> suffix (bases T) (bases C)"
proof (induction C)
  case StateTopBase
  then show ?case by simp
next
  case (StateBase ParentT U)
  show ?case
  proof (cases "T = StateBase ParentT U")
    case True
    then show ?thesis by simp
  next
    case False
    with StateBase.prems have "T \<in> set (bases ParentT)" by simp
    from StateBase.IH [OF this] show ?thesis by (simp add: suffix_Cons)
  qed
qed

lemma bases_trans: "T \<in> set (bases C) \<Longrightarrow> U \<in> set (bases T) \<Longrightarrow> U \<in> set (bases C)"
  using bases_suffix [of T C] by (auto simp: suffix_def)

lemma below_split:
  assumes "P \<in> set (bases C)"
  shows "bases C = below P C @ bases P"
proof -
  from bases_suffix [OF assms] obtain pre where pre: "bases C = pre @ bases P"
    by (auto simp: suffix_def)
  obtain tl where tl: "bases P = P # tl" using bases_hd by blast
  have "distinct (pre @ P # tl)" using bases_distinct [of C] by (simp add: pre tl)
  then have "P \<notin> set pre" by auto
  then have "takeWhile (\<lambda>T. T \<noteq> P) (pre @ P # tl) = pre"
    by (induction pre) auto
  then show ?thesis by (simp add: below_def pre tl)
qed

lemma exit_path_nca:
  assumes "nearest_common_ancestor P A B"
  shows "takeWhile (\<lambda>T. T \<notin> set (bases B)) (bases A) = below P A"
proof -
  from assms have PA: "P \<in> set (bases A)" and PB: "P \<in> set (bases B)"
    and near: "\<And>Q. Q \<in> set (bases A) \<Longrightarrow> Q \<in> set (bases B) \<Longrightarrow> Q \<in> set (bases P)"
    by (auto simp: nearest_common_ancestor_def)
  note split = below_split [OF PA]
  obtain tl where tl: "bases P = P # tl" using bases_hd by blast
  have d: "distinct (below P A @ bases P)" using bases_distinct [of A] by (simp add: split [symmetric])
  have out: "Q \<notin> set (bases B)" if "Q \<in> set (below P A)" for Q
  proof
    assume "Q \<in> set (bases B)"
    moreover from that have "Q \<in> set (bases A)" by (subst split) simp
    ultimately have "Q \<in> set (bases P)" by (rule near [rotated])
    with that d show False by auto
  qed
  have "takeWhile (\<lambda>T. T \<notin> set (bases B)) (pre @ P # tl) = pre"
    if "\<forall>Q \<in> set pre. Q \<notin> set (bases B)" for pre
    using that PB by (induction pre) auto
  from this [of "below P A"] out
  have "takeWhile (\<lambda>T. T \<notin> set (bases B)) (below P A @ P # tl) = below P A"
    by blast
  then show ?thesis using split by (simp add: tl)
qed

lemma nearest_common_ancestor_sym:
  "nearest_common_ancestor P A B \<Longrightarrow> nearest_common_ancestor P B A"
  by (auto simp: nearest_common_ancestor_def)

lemma nca_nearest: "nearest_common_ancestor (nca A B) A B"
proof (induction A)
  case StateTopBase
  show ?case by (simp add: nearest_common_ancestor_def)
next
  case (StateBase ParentT T)
  show ?case
  proof (cases "StateBase ParentT T \<in> set (bases B)")
    case True
    then show ?thesis
      using bases_trans [of _ ParentT] by (auto simp: nearest_common_ancestor_def)
  next
    case False
    with StateBase show ?thesis by (auto simp: nearest_common_ancestor_def)
  qed
qed

lemma nearest_common_ancestor_unique:
  assumes "nearest_common_ancestor P A B" and "nearest_common_ancestor Q A B"
  shows "P = Q"
proof -
  from assms have "P \<in> set (bases Q)" "Q \<in> set (bases P)"
    by (auto simp: nearest_common_ancestor_def)
  then have "size P \<le> size Q" "size Q \<le> size P" by (auto dest: bases_size)
  then have "size P = size Q" by simp
  obtain tl where tl: "bases Q = Q # tl" using bases_hd by blast
  show ?thesis
  proof (rule ccontr)
    assume "P \<noteq> Q"
    with \<open>P \<in> set (bases Q)\<close> tl have "P \<in> set tl" by auto
    moreover have "\<forall>T \<in> set tl. size T < size Q"
      using tl by (cases Q) (auto dest: bases_size simp: less_Suc_eq_le)
    ultimately show False using \<open>size P = size Q\<close> by auto
  qed
qed

lemma below_not_above:
  assumes "P \<in> set (bases C)" and "Q \<in> set (bases P)"
  shows "Q \<notin> set (below P C)"
proof -
  have "distinct (below P C @ bases P)"
    using bases_distinct [of C] below_split [OF assms(1)] by simp
  with assms(2) show ?thesis by auto
qed

text \<open>
  C1. The machine is in a state object \<open>a\<close>, \<open>B\<close> is another class, \<open>init\<close> of the
  candidate returns with the current state unchanged, and \<open>P\<close> is the nearest common
  ancestor of the class of \<open>a\<close> and \<open>B\<close>. Then \<open>setState<B>()\<close> returns, and after \<open>init\<close> its
  calls are: \<open>exit\<close> for the classes on the chain of \<open>a\<close> strictly below \<open>P\<close>, bottom-up, the
  installation of the candidate, \<open>entry\<close> for the classes on the chain of \<open>B\<close> strictly
  below \<open>P\<close>, top-down, and last the \<open>delete\<close> of \<open>a\<close>. No class at or above \<open>P\<close> is among
  the classes exited or entered.
\<close>

theorem transition_exit_entry_order:
  assumes cur: "m_state m = Some a" and diff: "obj_class a \<noteq> B"
    and init: "initHandler n p \<lparr>obj_id = new_addr p (next_obj m), obj_class = B\<rparr>
                 (m\<lparr>next_obj := Suc (next_obj m)\<rparr>) = Some m1"
    and noredirect: "m_state m1 = m_state m"
    and nca: "nearest_common_ancestor P (obj_class a) B"
  shows "\<exists>m'. setState (Suc n) p B m = Some m'
           \<and> m_state m' = Some \<lparr>obj_id = new_addr p (next_obj m), obj_class = B\<rparr>
           \<and> trace m' =
               trace m1 @ map Exit (below P (obj_class a))
                 @ [Install \<lparr>obj_id = new_addr p (next_obj m), obj_class = B\<rparr>]
                 @ map Entry (rev (below P B)) @ [Delete a]
           \<and> (\<forall>Q \<in> set (bases P). Q \<notin> set (below P (obj_class a)) \<and> Q \<notin> set (below P B))"
proof -
  let ?b = "\<lparr>obj_id = new_addr p (next_obj m), obj_class = B\<rparr>"
  let ?m2 = "exitHandler p (obj_class a) (Some ?b) m1"
  let ?m3 = "called (Install ?b) (?m2\<lparr>m_state := Some ?b\<rparr>)"
  let ?m4 = "entryHandler p B (Some a) ?m3"
  let ?m' = "delete_state (Some a) ?m4"
  have run: "setState (Suc n) p B m = Some ?m'"
    using cur diff init noredirect by (simp add: setState_Suc Let_def)
  have exit_levels: "takeWhile (\<lambda>T. T \<notin> set (bases B)) (bases (obj_class a)) = below P (obj_class a)"
    by (rule exit_path_nca [OF nca])
  have entry_levels: "takeWhile (\<lambda>T. T \<notin> set (bases (obj_class a))) (bases B) = below P B"
    by (rule exit_path_nca [OF nearest_common_ancestor_sym [OF nca]])
  have t2: "trace ?m2 = trace m1 @ map Exit (below P (obj_class a))"
    using exitHandler_trace [of p "obj_class a" ?b m1] by (simp add: exit_levels)
  have t3: "trace ?m3 = trace m1 @ map Exit (below P (obj_class a)) @ [Install ?b]"
    by (simp add: t2)
  have t4: "trace ?m4 = trace ?m3 @ map Entry (rev (below P B))"
    using entryHandler_trace [of p B a ?m3] by (simp only: entry_levels)
  have t: "trace ?m' = trace m1 @ map Exit (below P (obj_class a)) @ [Install ?b]
             @ map Entry (rev (below P B)) @ [Delete a]"
  proof -
    have "trace ?m' = trace ?m4 @ [Delete a]" by simp
    then show ?thesis by (simp only: t4 t3 append_assoc)
  qed
  have s: "m_state ?m' = Some ?b" by simp
  from nca have PA: "P \<in> set (bases (obj_class a))" and PB: "P \<in> set (bases B)"
    by (auto simp: nearest_common_ancestor_def)
  have above: "\<forall>Q \<in> set (bases P). Q \<notin> set (below P (obj_class a)) \<and> Q \<notin> set (below P B)"
    using below_not_above [OF PA] below_not_above [OF PB] by blast
  from run s t above show ?thesis by blast
qed

theorem transition_exit_entry_order_witness:
  "m_state started = Some \<lparr>obj_id = 2, obj_class = StateA1\<rparr>
   \<and> StateA1 \<noteq> StateB1
   \<and> nearest_common_ancestor StateTop StateA1 StateB1
   \<and> below StateTop StateA1 = [StateA1, StateA] \<and> below StateTop StateB1 = [StateB1, StateB]
   \<and> (\<exists>m'. setState (Suc 0) demo StateB1 started = Some m'
         \<and> m_state m' = Some \<lparr>obj_id = 3, obj_class = StateB1\<rparr>
         \<and> trace m' = trace started @
              [Init \<lparr>obj_id = 3, obj_class = StateB1\<rparr>, Exit StateA1, Exit StateA,
               Install \<lparr>obj_id = 3, obj_class = StateB1\<rparr>, Entry StateB, Entry StateB1,
               Delete \<lparr>obj_id = 2, obj_class = StateA1\<rparr>])"
proof -
  let ?a = "\<lparr>obj_id = 2, obj_class = StateA1\<rparr>"
  let ?m1 = "called (Init \<lparr>obj_id = 3, obj_class = StateB1\<rparr>) (started\<lparr>next_obj := 4\<rparr>)"
  have cur: "m_state started = Some ?a" by (simp add: started_def)
  have diff: "obj_class ?a \<noteq> StateB1" by (simp add: demo_classes)
  have n: "next_obj started = 3" by (simp add: started_def)
  have init: "initHandler 0 demo \<lparr>obj_id = new_addr demo (next_obj started), obj_class = StateB1\<rparr>
                (started\<lparr>next_obj := Suc (next_obj started)\<rparr>) = Some ?m1"
    by (simp add: n initHandler_def demo_def demo_classes)
  have nored: "m_state ?m1 = m_state started" by simp
  have nca: "nearest_common_ancestor StateTop (obj_class ?a) StateB1"
    by (simp add: nearest_common_ancestor_def demo_classes)
  have bl: "below StateTop StateA1 = [StateA1, StateA]" "below StateTop StateB1 = [StateB1, StateB]"
    by (simp_all add: below_def demo_classes)
  from transition_exit_entry_order [OF cur diff init nored nca]
  obtain m' where "setState (Suc 0) demo StateB1 started = Some m'"
    "m_state m' = Some \<lparr>obj_id = new_addr demo (next_obj started), obj_class = StateB1\<rparr>"
    "trace m' = trace ?m1 @ map Exit (below StateTop (obj_class ?a))
                 @ [Install \<lparr>obj_id = new_addr demo (next_obj started), obj_class = StateB1\<rparr>]
                 @ map Entry (rev (below StateTop StateB1)) @ [Delete ?a]"
    by blast
  then have "\<exists>m'. setState (Suc 0) demo StateB1 started = Some m'
         \<and> m_state m' = Some \<lparr>obj_id = 3, obj_class = StateB1\<rparr>
         \<and> trace m' = trace started @
              [Init \<lparr>obj_id = 3, obj_class = StateB1\<rparr>, Exit StateA1, Exit StateA,
               Install \<lparr>obj_id = 3, obj_class = StateB1\<rparr>, Entry StateB, Entry StateB1,
               Delete \<lparr>obj_id = 2, obj_class = StateA1\<rparr>]"
    by (simp add: n bl demo_def)
  with cur diff nca bl show ?thesis by simp
qed

subsection \<open>The active state\<close>

text \<open>
  C10. On a machine as constructed, \<open>isActive<T>()\<close> and \<open>state()\<close> dereference a null
  pointer. When \<open>start()\<close> has returned there is a current state object: \<open>state()\<close> is
  that object and \<open>isActive<T>()\<close> is true iff \<open>T\<close> is its class; and it stays so after any
  user code that runs to its end.
\<close>

theorem isActive_after_start:
  "isActive T (StateMachine_ctor ctx) = Inl NullDereference
   \<and> state (StateMachine_ctor ctx :: ('t, 'c) StateMachine) = Inl NullDereference
   \<and> (start n p StateTopT (StateMachine_ctor ctx) = Some m \<longrightarrow>
        (\<exists>cur. m_state m = Some cur \<and> state m = Inr cur
           \<and> isActive (T :: 't state_class) m = Inr (T = obj_class cur)))
   \<and> (m_state m0 \<noteq> None \<and> exec k p ss m0 = Some m1 \<longrightarrow>
        (\<exists>cur. m_state m1 = Some cur \<and> state m1 = Inr cur
           \<and> isActive T m1 = Inr (T = obj_class cur)))"
proof (intro conjI impI)
  show "isActive T (StateMachine_ctor ctx) = Inl NullDereference"
    by (simp add: isActive_def StateMachine_ctor_def)
  show "state (StateMachine_ctor ctx :: ('t, 'c) StateMachine) = Inl NullDereference"
    by (simp add: state_def StateMachine_ctor_def)
next
  assume "start n p StateTopT (StateMachine_ctor ctx) = Some m"
  then have "m_state m \<noteq> None"
    unfolding start_def by (rule setState_exec_state_not_None(1))
  then show "\<exists>cur. m_state m = Some cur \<and> state m = Inr cur \<and> isActive T m = Inr (T = obj_class cur)"
    by (auto simp: state_def isActive_def)
next
  assume "m_state m0 \<noteq> None \<and> exec k p ss m0 = Some m1"
  then have "m_state m1 \<noteq> None"
    using setState_exec_state_not_None(2) [of k p ss m0 m1] by simp
  then show "\<exists>cur. m_state m1 = Some cur \<and> state m1 = Inr cur \<and> isActive T m1 = Inr (T = obj_class cur)"
    by (auto simp: state_def isActive_def)
qed

theorem isActive_after_start_witness:
  "start (Suc (Suc (Suc 0))) demo StateTop (StateMachine_ctor ()) = Some started
   \<and> isActive StateA1 started = Inr True \<and> isActive StateA started = Inr False
   \<and> state started = Inr \<lparr>obj_id = 2, obj_class = StateA1\<rparr>
   \<and> m_state started \<noteq> None
   \<and> exec (Suc 0) demo [SetState StateB1] started
       = setState (Suc 0) demo StateB1 started
   \<and> (\<exists>m1. exec (Suc 0) demo [SetState StateB1] started = Some m1 \<and> isActive StateB1 m1 = Inr True)"
proof -
  have s: "start (Suc (Suc (Suc 0))) demo StateTop (StateMachine_ctor ()) = Some started"
    by (simp add: start_def demo_start)
  have n: "m_state started \<noteq> None" by (simp add: started_def)
  obtain m1 where e: "exec (Suc 0) demo [SetState StateB1] started = Some m1"
    and b: "m_state m1 = Some \<lparr>obj_id = 3, obj_class = StateB1\<rparr>"
    by (simp add: demo_switch)
  note th = isActive_after_start [of _ "()" "Suc (Suc (Suc 0))" demo StateTop started started "Suc 0"
      "[SetState StateB1]" m1]
  from th [of StateA1] s have "isActive StateA1 started = Inr True"
    by (auto simp: started_def)
  moreover from th [of StateA] s have "isActive StateA started = Inr False"
    by (auto simp: started_def demo_classes)
  moreover from th [of StateA] s have "state started = Inr \<lparr>obj_id = 2, obj_class = StateA1\<rparr>"
    by (auto simp: started_def)
  moreover from th [of StateB1] n e b have "isActive StateB1 m1 = Inr True"
    by auto
  moreover have "exec (Suc 0) demo [SetState StateB1] started = setState (Suc 0) demo StateB1 started"
    by (simp split: option.splits)
  ultimately show ?thesis using s n e by simp
qed

subsection \<open>The timeout\<close>


lemma exitHandler_exited: "trace (exitHandler p C to m) = trace m @ map Exit (exited C to)"
  by (induction C arbitrary: m) (simp_all add: Let_def)







section \<open>Properties of the audio splitter\<close>

lemma min_cursor_le_aux:
  "fold (\<lambda>b m. if enabled b then min (cursor b) m else m) bs len \<le> len"
proof (induction bs arbitrary: len)
  case Nil
  show ?case by simp
next
  case (Cons a bs)
  show ?case
  proof (cases "enabled a")
    case True
    have "fold (\<lambda>b m. if enabled b then min (cursor b) m else m) bs (min (cursor a) len)
        \<le> min (cursor a) len" by (rule Cons.IH)
    also have "\<dots> \<le> len" by simp
    finally show ?thesis using True by simp
  next
    case False
    then show ?thesis using Cons.IH [of len] by simp
  qed
qed

lemma min_cursor_le:
  "b \<in> set bs \<Longrightarrow> enabled b \<Longrightarrow> min_cursor len bs \<le> cursor b"
  unfolding min_cursor_def
proof (induction bs arbitrary: len)
  case Nil
  then show ?case by simp
next
  case (Cons a bs)
  show ?case
  proof (cases "b = a")
    case True
    with Cons.prems have "fold (\<lambda>b m. if enabled b then min (cursor b) m else m) bs (min (cursor a) len) \<le> min (cursor a) len"
      by (intro min_cursor_le_aux)
    with True Cons.prems show ?thesis by simp
  next
    case False
    with Cons.prems have "b \<in> set bs" by simp
    from Cons.IH [OF this Cons.prems(2)] show ?thesis by simp
  qed
qed

lemma settle_signals:
  "snd (settle s) = (if input_stopped s \<and> \<not> input_stopped (fst (settle s)) then [resume_output] else [])"
  "input_stopped (fst (settle s)) = short_wrote s"
  by (simp_all add: settle_def compact_def)

lemma splitter_step_signals:
  "snd (splitter_step e s) = (if input_stopped s \<and> \<not> input_stopped (fst (splitter_step e s)) then [resume_output] else [])"
  by (cases e) (simp_all add: writeSamples_def writeFromBuffer_def branchResumeOutput_def settle_signals Let_def)

lemma splitter_run_resumes:
  "resumes (splitter_run es s) = drains (input_stopped s # map (\<lambda>r. input_stopped (fst r)) (splitter_run es s))"
proof (induction es arbitrary: s)
  case Nil
  show ?case by (simp add: resumes_def)
next
  case (Cons e es)
  have "resumes (splitter_run (e # es) s) = length (filter (\<lambda>u. u = resume_output) (snd (splitter_step e s))) + resumes (splitter_run es (fst (splitter_step e s)))"
    by (simp add: resumes_def Let_def)
  also have "\<dots> = (if input_stopped s \<and> \<not> input_stopped (fst (splitter_step e s)) then 1 else 0)
      + drains (input_stopped (fst (splitter_step e s)) # map (\<lambda>r. input_stopped (fst r)) (splitter_run es (fst (splitter_step e s))))"
    by (simp add: Cons.IH splitter_step_signals)
  finally show ?case by (simp add: Let_def)
qed

lemma splitter_step_writes: "splitter_step e s = settle (branch_writes e s)"
  by (cases e) (simp_all add: writeSamples_def writeFromBuffer_def branchResumeOutput_def Let_def)

lemma write_branch_le:
  "\<forall>k frame. snk k frame \<le> length frame \<Longrightarrow> cursor b \<le> length bf \<Longrightarrow>
   cursor (write_branch snk bf b) \<le> length bf"
proof -
  assume wb: "\<forall>k frame. snk k frame \<le> length frame" and c: "cursor b \<le> length bf"
  have "snk (sink b) (drop (cursor b) bf) \<le> length bf - cursor b"
    using wb [rule_format, of "sink b" "drop (cursor b) bf"] by simp
  with c show ?thesis by (auto simp: write_branch_def)
qed

lemma branch_writes_cursors:
  assumes "well_behaved e" and "\<forall>b \<in> set (branches s). cursor b \<le> buf_len s"
  shows "\<forall>b \<in> set (branches (branch_writes e s)). cursor b \<le> buf_len (branch_writes e s)"
proof (cases e)
  case (Write samples snk)
  have "cursor (write_branch snk (buf s @ samples) b) \<le> length (buf s @ samples)"
    if "b \<in> set (branches s)" for b
    by (rule write_branch_le) (use assms Write that in \<open>auto simp: buf_len_def intro: trans_le_add1\<close>)
  then show ?thesis by (simp add: Write buf_len_def)
next
  case (BranchResume k snk)
  have "cursor (write_branch snk (buf s) b) \<le> length (buf s)"
    if "b \<in> set (branches s)" for b
    by (rule write_branch_le) (use assms BranchResume that in \<open>auto simp: buf_len_def\<close>)
  then show ?thesis using assms(2) by (auto simp: BranchResume buf_len_def)
qed

text \<open>
  C9. What \<open>writeSamples\<close> returns is at most the cursor of every enabled branch after the
  writes of the pass. An event sends \<open>resume_output\<close> upstream, once, exactly when the
  input was stopped before it and is not stopped after it, and nothing otherwise; the
  input is stopped after an event iff a branch short-wrote, so that, with sinks that keep
  the contract and cursors within the buffer, the cursor of every enabled branch equals
  \<open>buf_len\<close> when the input is released. Over any sequence of events the number of
  \<open>resume_output\<close> signals is the number of changes from stopped to not stopped.
\<close>

theorem splitter_backpressure:
  "(\<forall>b \<in> set (branches (branch_writes (Write samples snk) s)).
       enabled b \<longrightarrow> fst (writeSamples snk samples s) \<le> cursor b)
   \<and> snd (splitter_step e s) =
       (if input_stopped s \<and> \<not> input_stopped (fst (splitter_step e s)) then [resume_output] else [])
   \<and> input_stopped (fst (splitter_step e s)) = short_wrote (branch_writes e s)
   \<and> (well_behaved e \<and> (\<forall>b \<in> set (branches s). cursor b \<le> buf_len s)
        \<and> \<not> input_stopped (fst (splitter_step e s)) \<longrightarrow>
        (\<forall>b \<in> set (branches (branch_writes e s)). enabled b \<longrightarrow> cursor b = buf_len (branch_writes e s)))
   \<and> resumes (splitter_run es s) = drains (input_stopped s # map (\<lambda>r. input_stopped (fst r)) (splitter_run es s))"
proof (intro conjI)
  show "\<forall>b \<in> set (branches (branch_writes (Write samples snk) s)).
       enabled b \<longrightarrow> fst (writeSamples snk samples s) \<le> cursor b"
    by (auto simp: writeSamples_def Let_def intro!: min_cursor_le)
  show "snd (splitter_step e s) =
       (if input_stopped s \<and> \<not> input_stopped (fst (splitter_step e s)) then [resume_output] else [])"
    by (rule splitter_step_signals)
  show st: "input_stopped (fst (splitter_step e s)) = short_wrote (branch_writes e s)"
    by (simp add: splitter_step_writes settle_signals)
  show "well_behaved e \<and> (\<forall>b \<in> set (branches s). cursor b \<le> buf_len s)
        \<and> \<not> input_stopped (fst (splitter_step e s)) \<longrightarrow>
        (\<forall>b \<in> set (branches (branch_writes e s)). enabled b \<longrightarrow> cursor b = buf_len (branch_writes e s))"
  proof (intro impI ballI, elim conjE)
    fix b
    assume wb: "well_behaved e" and inv: "\<forall>b \<in> set (branches s). cursor b \<le> buf_len s"
      and ns: "\<not> input_stopped (fst (splitter_step e s))"
      and b: "b \<in> set (branches (branch_writes e s))" and en: "enabled b"
    from branch_writes_cursors [OF wb inv] b have "cursor b \<le> buf_len (branch_writes e s)" by blast
    moreover from ns b en have "\<not> cursor b < buf_len (branch_writes e s)"
      by (auto simp: st short_wrote_def)
    ultimately show "cursor b = buf_len (branch_writes e s)" by simp
  qed
  show "resumes (splitter_run es s) = drains (input_stopped s # map (\<lambda>r. input_stopped (fst r)) (splitter_run es s))"
    by (rule splitter_run_resumes)
qed

lemmas splitter_eval = writeSamples_def writeFromBuffer_def branchResumeOutput_def settle_def
  compact_def short_wrote_def write_branch_def min_cursor_def buf_len_def S1_splitter_def
  S1_sinks_def accept_all_def Let_def

lemma S1_write: "writeSamples S1_sinks S1_samples S1_splitter = (5, S1_stopped, [])"
  by (simp add: splitter_eval S1_samples_def S1_stopped_def)

lemma S1_resume: "branchResumeOutput accept_all 2 S1_stopped = (S1_splitter, [resume_output])"
  by (simp add: splitter_eval S1_samples_def S1_stopped_def)

lemma S1_run:
  "splitter_run [Write S1_samples S1_sinks, BranchResume 2 accept_all] S1_splitter
     = [(S1_stopped, []), (S1_splitter, [resume_output])]"
  by (simp add: S1_write S1_resume)

theorem splitter_backpressure_witness:
  "fst (writeSamples S1_sinks S1_samples S1_splitter) \<le> 5
   \<and> fst (writeSamples S1_sinks S1_samples S1_splitter) = 5
   \<and> map cursor (branches (branch_writes (Write S1_samples S1_sinks) S1_splitter)) = [10, 5]
   \<and> well_behaved (BranchResume 2 accept_all)
   \<and> map cursor (branches S1_stopped) = [10, 5] \<and> buf_len S1_stopped = 10
   \<and> splitter_step (BranchResume 2 accept_all) S1_stopped = (S1_splitter, [resume_output])
   \<and> map cursor (branches (branch_writes (BranchResume 2 accept_all) S1_stopped)) = [10, 10]
   \<and> resumes (splitter_run [Write S1_samples S1_sinks, BranchResume 2 accept_all] S1_splitter) = 1"
proof -
  let ?es = "[Write S1_samples S1_sinks, BranchResume 2 accept_all]"
  note a = splitter_backpressure [of S1_samples S1_sinks S1_splitter "Write S1_samples S1_sinks" ?es]
  note b = splitter_backpressure [of S1_samples S1_sinks S1_stopped "BranchResume 2 accept_all" ?es]
  have p1: "map cursor (branches (branch_writes (Write S1_samples S1_sinks) S1_splitter)) = [10, 5]"
    by (simp add: splitter_eval S1_samples_def)
  have p2: "map cursor (branches (branch_writes (BranchResume 2 accept_all) S1_stopped)) = [10, 10]"
    by (simp add: splitter_eval S1_samples_def S1_stopped_def)
  have wb: "well_behaved (BranchResume 2 accept_all)" by (simp add: accept_all_def)
  have inv: "\<forall>b \<in> set (branches S1_stopped). cursor b \<le> buf_len S1_stopped"
    by (simp add: S1_stopped_def S1_samples_def buf_len_def)
  have st: "splitter_step (BranchResume 2 accept_all) S1_stopped = (S1_splitter, [resume_output])"
    by (simp add: S1_resume)
  from a have "resumes (splitter_run ?es S1_splitter)
      = drains (input_stopped S1_splitter # map (\<lambda>r. input_stopped (fst r)) (splitter_run ?es S1_splitter))"
    by blast
  then have r: "resumes (splitter_run ?es S1_splitter) = 1"
    unfolding S1_run by (simp add: S1_splitter_def S1_stopped_def)
  have c: "map cursor (branches S1_stopped) = [10, 5]" "buf_len S1_stopped = 10"
    by (simp_all add: S1_stopped_def S1_samples_def buf_len_def)
  from a b wb inv st
  have "\<forall>b \<in> set (branches (branch_writes (BranchResume 2 accept_all) S1_stopped)).
      enabled b \<longrightarrow> cursor b = buf_len (branch_writes (BranchResume 2 accept_all) S1_stopped)"
    by (simp add: S1_splitter_def)
  moreover from a
  have "\<forall>b \<in> set (branches (branch_writes (Write S1_samples S1_sinks) S1_splitter)).
      enabled b \<longrightarrow> fst (writeSamples S1_sinks S1_samples S1_splitter) \<le> cursor b"
    by blast
  then have "fst (writeSamples S1_sinks S1_samples S1_splitter) \<le> 5"
    by (simp add: splitter_eval S1_samples_def)
  ultimately show ?thesis using p1 p2 wb c st r by (simp add: S1_write)
qed

end
